theory Spec2Isabelle
  imports Complex_Main "HOL-Library.Log_Nat" "HOL-Library.Multiset"
begin

section \<open>JavaScript numbers\<close>

text \<open>
  A JavaScript number is an IEEE 754 binary64 value: a finite value, which is a rational
  number, one of the two infinities, or NaN. The two zeros \<open>+0\<close> and \<open>-0\<close> are one value
  \<open>Fin 0\<close> here: comparison, \<^verbatim>\<open>===\<close>, \<^verbatim>\<open>Math.abs\<close> and the arithmetic below do not
  tell them apart, except for a division by zero, where the divisor counts as \<open>+0\<close>
  (the divisors of the modelled code are a sum of absolute values, which is never \<open>-0\<close>,
  and the entries of the unit table).
\<close>

datatype number = Fin rat | PosInf | NegInf | NaN

text \<open>Rounding a rational to the nearest integer, a tie going to the even neighbour.\<close>

definition rne :: "rat \<Rightarrow> int" where
  "rne x = (let f = \<lfloor>x\<rfloor>; d = x - of_int f in
            if d < 1 / 2 then f
            else if 1 / 2 < d then f + 1
            else if even f then f else f + 1)"

text \<open>
  For \<open>0 < x\<close>, \<open>binade x\<close> is the exponent \<open>e\<close> with \<open>2^e \<le> x < 2^(e+1)\<close>, found from
  the number of bits of the integer part of \<open>x\<close> or, below 1, of \<open>1 / x\<close>.
\<close>

definition binade :: "rat \<Rightarrow> int" where
  "binade x = (if 1 \<le> x then bitlen \<lfloor>x\<rfloor> - 1 else - bitlen (\<lceil>1 / x\<rceil> - 1))"

text \<open>
  The exponent of the last of the 53 significand bits of a binary64 value of the
  magnitude of \<open>x\<close>; below \<open>2^-1022\<close> (subnormal values) it stays at \<open>-1074\<close>.
\<close>

definition ulp_exp :: "rat \<Rightarrow> int" where
  "ulp_exp x = max (binade \<bar>x\<bar>) (- 1022) - 52"

text \<open>
  Rounding to the nearest multiple of the unit in the last place, a tie going to the
  even multiple; the range of the exponent is not yet bounded above here.
\<close>

definition nearest :: "rat \<Rightarrow> rat" where
  "nearest x = of_int (rne (x / 2 powi ulp_exp x)) * 2 powi ulp_exp x"

text \<open>
  The binary64 value of an exact result \<open>x\<close>: the nearest value, or an infinity when
  the rounded magnitude is \<open>2^1024\<close> or more.
\<close>

definition to_double :: "rat \<Rightarrow> number" where
  "to_double x =
     (if x = 0 then Fin 0
      else if 2 ^ 1024 \<le> \<bar>nearest x\<bar> then (if 0 < x then PosInf else NegInf)
      else Fin (nearest x))"

text \<open>\<^verbatim>\<open>Math.PI\<close>, the binary64 value nearest to \<open>\<pi>\<close>: \<open>884279719003555 / 2^48\<close>.\<close>

definition Math_PI :: number where
  "Math_PI = Fin (884279719003555 / 281474976710656)"

fun js_abs :: "number \<Rightarrow> number" where
  "js_abs (Fin a) = Fin \<bar>a\<bar>"
| "js_abs PosInf = PosInf"
| "js_abs NegInf = PosInf"
| "js_abs NaN = NaN"

fun js_neg :: "number \<Rightarrow> number" where
  "js_neg (Fin a) = Fin (- a)"
| "js_neg PosInf = NegInf"
| "js_neg NegInf = PosInf"
| "js_neg NaN = NaN"

fun js_add :: "number \<Rightarrow> number \<Rightarrow> number" where
  "js_add NaN y = NaN"
| "js_add x NaN = NaN"
| "js_add (Fin a) (Fin b) = to_double (a + b)"
| "js_add PosInf NegInf = NaN"
| "js_add NegInf PosInf = NaN"
| "js_add PosInf y = PosInf"
| "js_add NegInf y = NegInf"
| "js_add (Fin a) PosInf = PosInf"
| "js_add (Fin a) NegInf = NegInf"

definition js_sub :: "number \<Rightarrow> number \<Rightarrow> number" where
  "js_sub x y = js_add x (js_neg y)"

fun js_mul :: "number \<Rightarrow> number \<Rightarrow> number" where
  "js_mul NaN y = NaN"
| "js_mul x NaN = NaN"
| "js_mul (Fin a) (Fin b) = to_double (a * b)"
| "js_mul (Fin a) PosInf = (if a = 0 then NaN else if 0 < a then PosInf else NegInf)"
| "js_mul (Fin a) NegInf = (if a = 0 then NaN else if 0 < a then NegInf else PosInf)"
| "js_mul PosInf (Fin b) = (if b = 0 then NaN else if 0 < b then PosInf else NegInf)"
| "js_mul NegInf (Fin b) = (if b = 0 then NaN else if 0 < b then NegInf else PosInf)"
| "js_mul PosInf PosInf = PosInf"
| "js_mul PosInf NegInf = NegInf"
| "js_mul NegInf PosInf = NegInf"
| "js_mul NegInf NegInf = PosInf"

fun js_div :: "number \<Rightarrow> number \<Rightarrow> number" where
  "js_div NaN y = NaN"
| "js_div x NaN = NaN"
| "js_div (Fin a) (Fin b) =
     (if b = 0 then (if a = 0 then NaN else if 0 < a then PosInf else NegInf)
      else to_double (a / b))"
| "js_div (Fin a) y = Fin 0"
| "js_div PosInf (Fin b) = (if 0 \<le> b then PosInf else NegInf)"
| "js_div NegInf (Fin b) = (if 0 \<le> b then NegInf else PosInf)"
| "js_div x y = NaN"

text \<open>The comparisons \<^verbatim>\<open><\<close> and \<^verbatim>\<open><=\<close> (false when a side is NaN) and \<^verbatim>\<open>===\<close>.\<close>

fun js_lt :: "number \<Rightarrow> number \<Rightarrow> bool" where
  "js_lt (Fin a) (Fin b) = (a < b)"
| "js_lt (Fin a) PosInf = True"
| "js_lt NegInf (Fin b) = True"
| "js_lt NegInf PosInf = True"
| "js_lt x y = False"

fun js_le :: "number \<Rightarrow> number \<Rightarrow> bool" where
  "js_le NaN y = False"
| "js_le x NaN = False"
| "js_le x y = (x = y \<or> js_lt x y)"

definition js_strict_eq :: "number \<Rightarrow> number \<Rightarrow> bool" where
  "js_strict_eq x y = (x \<noteq> NaN \<and> x = y)"

text \<open>
  The finite numbers that are values of the binary64 format: rounding leaves them as they
  are, and they lie below the overflow threshold. The angles of the pie chart are
  such values that are not negative, or \<open>+\<infinity>\<close>.
\<close>

fun finite_double :: "number \<Rightarrow> bool" where
  "finite_double (Fin r) = (nearest r = r \<and> \<bar>r\<bar> < 2 ^ 1024)"
| "finite_double x = False"

fun angle_value :: "number \<Rightarrow> bool" where
  "angle_value (Fin r) = (0 \<le> r \<and> nearest r = r)"
| "angle_value PosInf = True"
| "angle_value x = False"

text \<open>
  A size that is a whole number (a count of bytes, or a difference of such counts), and
  the integer it stands for.
\<close>

definition bytes_of :: "number \<Rightarrow> int" where
  "bytes_of x = (case x of Fin r \<Rightarrow> \<lfloor>r\<rfloor> | PosInf \<Rightarrow> 0 | NegInf \<Rightarrow> 0 | NaN \<Rightarrow> 0)"

definition whole_number :: "number \<Rightarrow> bool" where
  "whole_number x = (x = Fin (of_int (bytes_of x)))"

section \<open>The report stream of \<^verbatim>\<open>src/ui/travis.ts\<close>\<close>

text \<open>
  \<^verbatim>\<open>FileData\<close> is one file of a build: its path and its two byte counts, which
  are JavaScript numbers. The field \<^verbatim>\<open>size\<close> is called \<open>size_f\<close>, since \<open>size\<close> is a constant of HOL
  (and \<^verbatim>\<open>total\<close> of the header is \<open>total_f\<close> for the same reason).
\<close>

record FileData =
  path :: string
  size_f :: number
  gzipSize :: number

text \<open>
  \<^verbatim>\<open>BuildChanges\<close>: three arrays and a \<^verbatim>\<open>Map\<close> from the old to the new record of
  a changed file. The map is kept as the list of its entries in iteration order; its
  \<^verbatim>\<open>size\<close> is the number of entries.
\<close>

record BuildChanges =
  newItems :: "FileData list"
  deletedItems :: "FileData list"
  sameItems :: "FileData list"
  changedItems :: "(FileData \<times> FileData) list"

record Meta =
  total_f :: nat
  diff_mode :: bool

text \<open>
  One symbol of a \<^verbatim>\<open>FileEntry\<close>, with the source's one-letter keys \<^verbatim>\<open>n b g t u\<close>
  prefixed by \<open>sym_\<close>, and the entry itself, keys \<^verbatim>\<open>p\<close> and \<^verbatim>\<open>s\<close> prefixed by
  \<open>entry_\<close>.
\<close>

record Symbol =
  sym_n :: string
  sym_b :: number
  sym_g :: number
  sym_t :: string
  sym_u :: number

record FileEntry =
  entry_p :: string
  entry_s :: "Symbol list"

subsection \<open>\<^verbatim>\<open>basename\<close>\<close>

text \<open>
  \<^verbatim>\<open>String.prototype.lastIndexOf\<close> scans from the last position down to position 0
  and answers \<open>-1\<close> when the character does not occur.
\<close>

fun lastIndexOf_upto :: "string \<Rightarrow> char \<Rightarrow> nat \<Rightarrow> int" where
  "lastIndexOf_upto str c 0 = - 1"
| "lastIndexOf_upto str c (Suc k) =
     (if str ! k = c then int k else lastIndexOf_upto str c k)"

definition lastIndexOf :: "string \<Rightarrow> char \<Rightarrow> int" where
  "lastIndexOf str c = lastIndexOf_upto str c (length str)"

text \<open>
  \<^verbatim>\<open>str.substring(start)\<close> with one argument: a negative start counts as 0, a start
  beyond the end gives the empty string.
\<close>

definition substring :: "string \<Rightarrow> int \<Rightarrow> string" where
  "substring str start = drop (nat (max 0 start)) str"

definition basename :: "string \<Rightarrow> string" where
  "basename pth = substring pth (lastIndexOf pth (CHR ''/'') + 1)"

subsection \<open>\<^verbatim>\<open>transformChanges\<close>\<close>

text \<open>
  The global \<^verbatim>\<open>_CODE_SYMBOL_TYPE\<close> is declared outside the files at hand; it is the
  parameter \<open>code_symbol_type\<close>. The four loops push one entry per item, in this order.
  The unary minus and the subtraction are those of JavaScript numbers.
\<close>

definition new_entry :: "string \<Rightarrow> FileData \<Rightarrow> FileEntry" where
  "new_entry code_symbol_type d =
     \<lparr>entry_p = path d,
      entry_s = [\<lparr>sym_n = basename (path d), sym_b = size_f d, sym_g = gzipSize d,
                  sym_t = code_symbol_type, sym_u = Fin 1\<rparr>]\<rparr>"

definition deleted_entry :: "string \<Rightarrow> FileData \<Rightarrow> FileEntry" where
  "deleted_entry code_symbol_type d =
     \<lparr>entry_p = path d,
      entry_s = [\<lparr>sym_n = basename (path d), sym_b = js_neg (size_f d),
                  sym_g = js_neg (gzipSize d),
                  sym_t = code_symbol_type, sym_u = Fin (- 1)\<rparr>]\<rparr>"

definition same_entry :: "string \<Rightarrow> FileData \<Rightarrow> FileEntry" where
  "same_entry code_symbol_type d =
     \<lparr>entry_p = path d,
      entry_s = [\<lparr>sym_n = basename (path d), sym_b = Fin 0, sym_g = Fin 0,
                  sym_t = code_symbol_type, sym_u = Fin 1\<rparr>]\<rparr>"

definition changed_entry :: "string \<Rightarrow> FileData \<times> FileData \<Rightarrow> FileEntry" where
  "changed_entry code_symbol_type pr =
     (case pr of (oldData, newData) \<Rightarrow>
       \<lparr>entry_p = path newData,
        entry_s = [\<lparr>sym_n = basename (path newData),
                    sym_b = js_sub (size_f newData) (size_f oldData),
                    sym_g = js_sub (gzipSize newData) (gzipSize oldData),
                    sym_t = code_symbol_type, sym_u = Fin 1\<rparr>]\<rparr>)"

record Transformed =
  meta :: Meta
  entries :: "FileEntry list"

definition transformChanges :: "string \<Rightarrow> BuildChanges \<Rightarrow> Transformed" where
  "transformChanges code_symbol_type changes =
     \<lparr>meta = \<lparr>total_f = length (newItems changes) + length (deletedItems changes)
                       + length (sameItems changes) + length (changedItems changes),
               diff_mode = True\<rparr>,
      entries = map (new_entry code_symbol_type) (newItems changes)
              @ map (deleted_entry code_symbol_type) (deletedItems changes)
              @ map (same_entry code_symbol_type) (sameItems changes)
              @ map (changed_entry code_symbol_type) (changedItems changes)\<rparr>"

subsection \<open>\<^verbatim>\<open>TravisFetcher\<close>\<close>

text \<open>
  \<^verbatim>\<open>input.split('/')\<close>: the pieces between the separators; the result always has at
  least one piece.
\<close>

fun split :: "string \<Rightarrow> char \<Rightarrow> string list" where
  "split [] c = [[]]"
| "split (x # xs) c =
     (if x = c then [] # split xs c
      else (x # hd (split xs c)) # tl (split xs c))"

text \<open>Reading an array at an index that may lie beyond its end gives \<^verbatim>\<open>undefined\<close>.\<close>

definition at_index :: "'a list \<Rightarrow> nat \<Rightarrow> 'a option" where
  "at_index xs i = (if i < length xs then Some (xs ! i) else None)"

datatype error = Error string | TypeError

datatype item = MetaItem Meta | EntryItem FileEntry

text \<open>
  What a consumer that drains the asynchronous generator sees: the items yielded, in
  order, and the error the generator threw, if it threw. The third field is the state of
  the world outside (the CI service), which the two imported functions read and change.
\<close>

record 'w Drained =
  yielded :: "item list"
  thrown :: "error option"
  world :: 'w

text \<open>
  \<^verbatim>\<open>getBuildInfo\<close> and \<^verbatim>\<open>getChanges\<close> come from \<^verbatim>\<open>../cli/compare-travis\<close>, which is
  not among the files at hand: they are parameters. Each takes the world, may reject
  (\<open>Inl\<close>), and returns the world it leaves behind. \<open>'b\<close> is the type of a build info.
\<close>

type_synonym ('b, 'w) getBuildInfo_fn =
  "string option \<Rightarrow> string option \<Rightarrow> string \<Rightarrow> nat \<Rightarrow> 'w \<Rightarrow> (error + 'b list) \<times> 'w"

type_synonym ('b, 'w) getChanges_fn =
  "'b \<Rightarrow> 'b \<Rightarrow> 'w \<Rightarrow> (error + BuildChanges) \<times> 'w"

definition setInput :: "string \<Rightarrow> string list" where
  "setInput input = split input (CHR ''/'')"

definition newlineDelimtedJsonStream ::
  "string \<Rightarrow> ('b, 'w) getBuildInfo_fn \<Rightarrow> ('b, 'w) getChanges_fn \<Rightarrow> string list \<Rightarrow> 'w
     \<Rightarrow> 'w Drained" where
  "newlineDelimtedJsonStream code_symbol_type getBuildInfo getChanges input_field w =
     (let user = at_index input_field 0; repo = at_index input_field 1 in
      case getBuildInfo user repo ''master'' 2 w of
        (Inl e, w1) \<Rightarrow> \<lparr>yielded = [], thrown = Some e, world = w1\<rparr>
      | (Inr builds, w1) \<Rightarrow>
          (case at_index builds 1 of
             None \<Rightarrow>
               \<lparr>yielded = [], thrown = Some (Error ''Couldn't find previous build info''),
                world = w1\<rparr>
           | Some previousBuildInfo \<Rightarrow>
               (case at_index builds 0 of
                  None \<Rightarrow>
                    \<lparr>yielded = [],
                     thrown = Some (Error ''Couldn't find current build info''),
                     world = w1\<rparr>
                | Some currentBuildInfo \<Rightarrow>
                    (case getChanges previousBuildInfo currentBuildInfo w1 of
                       (Inl e, w2) \<Rightarrow> \<lparr>yielded = [], thrown = Some e, world = w2\<rparr>
                     | (Inr buildChanges, w2) \<Rightarrow>
                         (let tr = transformChanges code_symbol_type buildChanges in
                          \<lparr>yielded = MetaItem (meta tr) # map EntryItem (entries tr),
                           thrown = None, world = w2\<rparr>)))))"

section \<open>The state and the size text of the page (the chunk \<^verbatim>\<open>state\<close>)\<close>

text \<open>
  The state is a \<^verbatim>\<open>URLSearchParams\<close>: a list of key and value pairs. \<^verbatim>\<open>has\<close> asks
  whether a key occurs, \<^verbatim>\<open>get\<close> gives the first value of a key or \<^verbatim>\<open>null\<close>.
\<close>

type_synonym URLSearchParams = "(string \<times> string) list"

definition state_has :: "URLSearchParams \<Rightarrow> string \<Rightarrow> bool" where
  "state_has filterParams key = (key \<in> set (map fst filterParams))"

definition state_get :: "URLSearchParams \<Rightarrow> string \<Rightarrow> string option" where
  "state_get filterParams key = map_of filterParams key"

text \<open>
  Of a \<^verbatim>\<open>TreeNode\<close>, the size (\<open>size_n\<close>) and the per-type statistics of the children,
  an object from a type tag to \<^verbatim>\<open>{size, count}\<close>, kept as the list of its entries in the
  order of \<^verbatim>\<open>Object.entries\<close>.
\<close>

record Stats =
  size_s :: number
  count_s :: number

record TreeNode =
  size_n :: number
  childStats :: "(string \<times> Stats) list"

text \<open>
  The globals \<^verbatim>\<open>_LOCALE\<close> and \<^verbatim>\<open>_BYTE_UNITS\<close> are declared outside the files at hand.
  The table of units and the two uses of \<^verbatim>\<open>toLocaleString\<close> in \<^verbatim>\<open>getSizeContents\<close>
  (with grouping; with exactly two fraction digits) are parameters.
\<close>

record Formats =
  byte_units :: "string \<Rightarrow> number option"
  format_grouped :: "number \<Rightarrow> string"
  format_fixed2 :: "number \<Rightarrow> string"

datatype dom_node = TextNode string | TextElement string string

record GetSizeResult =
  description :: string
  element :: "dom_node list"
  value_f :: number

definition getSizeContents :: "Formats \<Rightarrow> URLSearchParams \<Rightarrow> TreeNode \<Rightarrow> GetSizeResult" where
  "getSizeContents fmt filterParams node =
     (let bytes = (if state_has filterParams ''gzip'' then size_n node else size_n node);
          bytesGrouped = format_grouped fmt bytes;
          descr = bytesGrouped @ '' bytes'';
          unit = (case state_get filterParams ''byteunit'' of
                    None \<Rightarrow> ''KiB''
                  | Some u \<Rightarrow> if u = [] then ''KiB'' else u);
          quotient = (case byte_units fmt unit of
                        None \<Rightarrow> NaN
                      | Some suffix \<Rightarrow> js_div bytes suffix);
          txt = format_fixed2 fmt quotient
      in \<lparr>description = descr,
          element = [TextNode (txt @ '' ''), TextElement ''small'' unit],
          value_f = bytes\<rparr>)"

text \<open>
  The class list of an element is a list of distinct tokens: \<^verbatim>\<open>add\<close> appends a token
  that is not there, \<^verbatim>\<open>remove\<close> takes a token out.
\<close>

definition classList_add :: "string list \<Rightarrow> string \<Rightarrow> string list" where
  "classList_add classList token = (if token \<in> set classList then classList else classList @ [token])"

definition classList_remove :: "string list \<Rightarrow> string \<Rightarrow> string list" where
  "classList_remove classList token = removeAll token classList"

definition SIZE_CHANGE_CUTOFF :: number where
  "SIZE_CHANGE_CUTOFF = Fin 50000"

definition setSizeClasses :: "URLSearchParams \<Rightarrow> string list \<Rightarrow> number \<Rightarrow> string list" where
  "setSizeClasses filterParams classList val =
     (let shouldHaveStyle = (state_has filterParams ''diff_mode''
                              \<and> js_lt SIZE_CHANGE_CUTOFF (js_abs val))
      in if shouldHaveStyle then
           (if js_lt val (Fin 0)
            then classList_remove (classList_add classList ''shrunk'') ''grew''
            else classList_add (classList_remove classList ''shrunk'') ''grew'')
         else classList_remove (classList_remove classList ''shrunk'') ''grew'')"

section \<open>The container info card of \<^verbatim>\<open>src/ui/infocard-ui.ts\<close>\<close>

text \<open>
  The ten rows of the breakdown table, \<^verbatim>\<open>_infoRows\<close>, in the order of the object
  literal. A row is named by its key. Looking up a type tag that is not a key gives
  \<^verbatim>\<open>undefined\<close>.
\<close>

definition infoRows_keys :: "string list" where
  "infoRows_keys = [''b'', ''d'', ''r'', ''t'', ''R'', ''x'', ''m'', ''p'', ''P'', ''o'']"

definition infoRows :: "string \<Rightarrow> string option" where
  "infoRows ty = (if ty \<in> set infoRows_keys then Some ty else None)"

text \<open>
  The calls that reach the canvas: \<^verbatim>\<open>_drawSlice(angleStart, angleEnd, fillColor)\<close> and
  \<^verbatim>\<open>_drawBorder(angleStart, angleEnd, strokeColor, lineWidth)\<close>.
\<close>

datatype canvas_call =
    DrawSlice number number string
  | DrawBorder number number string number

text \<open>
  \<^verbatim>\<open>_updateBreakdownRow\<close> on the children of the table body (the rows attached to it, in
  document order). Without statistics or with a size that is \<^verbatim>\<open>=== 0\<close> the row is
  removed if it is attached; otherwise its cells are filled (their texts are locale
  formatting and are not kept here) and \<^verbatim>\<open>appendChild\<close> moves the row to the end.
  Reading a property of a row that is \<^verbatim>\<open>undefined\<close> throws a \<^verbatim>\<open>TypeError\<close>.
\<close>

definition updateBreakdownRow ::
  "string list \<Rightarrow> string option \<Rightarrow> Stats option \<Rightarrow> number \<Rightarrow> error + string list" where
  "updateBreakdownRow tableBody row stats percentage =
     (if (case stats of None \<Rightarrow> True | Some st \<Rightarrow> js_strict_eq (size_s st) (Fin 0)) then
        (case row of
           None \<Rightarrow> Inl TypeError
         | Some r \<Rightarrow> Inr (if r \<in> set tableBody then removeAll r tableBody else tableBody))
      else
        (case row of
           None \<Rightarrow> Inl TypeError
         | Some r \<Rightarrow> Inr (removeAll r tableBody @ [r])))"

text \<open>
  \<^verbatim>\<open>Object.entries(childStats).sort((a, b) => b[1].size - a[1].size)\<close>. The sort is
  stable; it is written as an insertion sort, which agrees with every stable sort when
  the comparison function is consistent (it is unless a size is NaN). An entry \<open>x\<close> goes
  behind \<open>y\<close> exactly when the comparison function is positive on them.
\<close>

definition comparefn :: "string \<times> Stats \<Rightarrow> string \<times> Stats \<Rightarrow> number" where
  "comparefn a b = js_sub (size_s (snd b)) (size_s (snd a))"

fun insert_entry :: "string \<times> Stats \<Rightarrow> (string \<times> Stats) list \<Rightarrow> (string \<times> Stats) list" where
  "insert_entry x [] = [x]"
| "insert_entry x (y # ys) =
     (if js_lt (Fin 0) (comparefn x y) then y # insert_entry x ys else x # y # ys)"

definition sort_entries :: "(string \<times> Stats) list \<Rightarrow> (string \<times> Stats) list" where
  "sort_entries es = foldr insert_entry es []"

text \<open>The first loop: the sum of the absolute sizes, starting from 0.\<close>

definition totalSize_of :: "(string \<times> Stats) list \<Rightarrow> number" where
  "totalSize_of statsEntries = fold (\<lambda>e acc. js_add acc (js_abs (size_s (snd e)))) statsEntries (Fin 0)"

definition percentage_of :: "Stats \<Rightarrow> number \<Rightarrow> number" where
  "percentage_of stats totalSize = js_div (size_s stats) totalSize"

definition arcLength_of :: "number \<Rightarrow> number" where
  "arcLength_of percentage = js_mul (js_mul (js_abs percentage) (Fin 2)) Math_PI"

text \<open>
  The second loop, over the locals \<^verbatim>\<open>extraRows\<close> and \<^verbatim>\<open>angleStart\<close>, the children of the
  table body and the calls made to the canvas so far. \<^verbatim>\<open>getIconStyle(type).color\<close> reads
  the icons of the page and is the parameter \<open>icon_color\<close>. When a row update throws,
  the loop ends there: the result is the error together with the state reached, in which
  the type has been deleted from \<^verbatim>\<open>extraRows\<close> and everything drawn so far stays drawn.
\<close>

record UpdateState =
  extraRows :: "string list"
  tableBody :: "string list"
  canvas :: "canvas_call list"
  angleStart :: number

fun breakdown_loop ::
  "(string \<Rightarrow> string) \<Rightarrow> bool \<Rightarrow> number \<Rightarrow> (string \<times> Stats) list \<Rightarrow> UpdateState
     \<Rightarrow> (error \<times> UpdateState) + UpdateState" where
  "breakdown_loop icon_color diffMode totalSize [] st = Inr st"
| "breakdown_loop icon_color diffMode totalSize ((ty, stats) # rest) st =
     (let extra = removeAll ty (extraRows st);
          color = icon_color ty;
          percentage = percentage_of stats totalSize
      in case updateBreakdownRow (tableBody st) (infoRows ty) (Some stats) percentage of
           Inl e \<Rightarrow> Inl (e, st\<lparr>extraRows := extra\<rparr>)
         | Inr tb \<Rightarrow>
             (let arcLength = arcLength_of percentage in
              if js_lt (Fin 0) arcLength then
                (let angleEnd = js_add (angleStart st) arcLength;
                     border = (if diffMode
                               then [DrawBorder (angleStart st) angleEnd
                                       (if js_lt (Fin 0) (size_s stats) then ''#ea4335''
                                        else ''#34a853'')
                                       (Fin 16)]
                               else [])
                 in breakdown_loop icon_color diffMode totalSize rest
                      \<lparr>extraRows = extra, tableBody = tb,
                       canvas = canvas st @ DrawSlice (angleStart st) angleEnd color # border,
                       angleStart = angleEnd\<rparr>)
              else
                breakdown_loop icon_color diffMode totalSize rest
                  \<lparr>extraRows = extra, tableBody = tb, canvas = canvas st,
                   angleStart = angleStart st\<rparr>))"

text \<open>The last loop hides the rows of the types that did not occur.\<close>

fun hide_unused :: "string list \<Rightarrow> string list \<Rightarrow> (error \<times> string list) + string list" where
  "hide_unused [] tb = Inr tb"
| "hide_unused (row # rows) tb =
     (case updateBreakdownRow tb (Some row) None (Fin 0) of
        Inl e \<Rightarrow> Inl (e, tb)
      | Inr tb' \<Rightarrow> hide_unused rows tb')"

text \<open>
  \<^verbatim>\<open>ContainerInfocard._updateInfocard\<close>, from the children of the table body before the
  update to the state after it: the children of the table body, the calls made to the
  canvas, and the angle reached. An update that throws gives the error and the state
  reached when it threw. The call to \<^verbatim>\<open>super._updateInfocard\<close> writes the size
  heading, the path and the icon of the card, which are other elements; it is left out.
\<close>

definition updateInfocard ::
  "(string \<Rightarrow> string) \<Rightarrow> URLSearchParams \<Rightarrow> TreeNode \<Rightarrow> string list
     \<Rightarrow> (error \<times> UpdateState) + UpdateState" where
  "updateInfocard icon_color filterParams containerNode tableBody0 =
     (let statsEntries = sort_entries (childStats containerNode);
          diffMode = state_has filterParams ''diff_mode'';
          totalSize = totalSize_of statsEntries
      in case breakdown_loop icon_color diffMode totalSize statsEntries
                \<lparr>extraRows = infoRows_keys, tableBody = tableBody0, canvas = [],
                 angleStart = Fin 0\<rparr> of
           Inl thrown_at \<Rightarrow> Inl thrown_at
         | Inr st \<Rightarrow>
             (case hide_unused (extraRows st) (tableBody st) of
                Inl (e, tb) \<Rightarrow> Inl (e, st\<lparr>tableBody := tb\<rparr>)
              | Inr tb \<Rightarrow> Inr (st\<lparr>tableBody := tb\<rparr>)))"

text \<open>The state in which an update ended, whether it completed or threw.\<close>

definition state_reached :: "(error \<times> UpdateState) + UpdateState \<Rightarrow> UpdateState" where
  "state_reached outcome = (case outcome of Inl (e, st) \<Rightarrow> st | Inr st \<Rightarrow> st)"

text \<open>The slices among the calls to the canvas, each as its start and end angle.\<close>

fun slices :: "canvas_call list \<Rightarrow> (number \<times> number) list" where
  "slices [] = []"
| "slices (DrawSlice a b color # calls) = (a, b) # slices calls"
| "slices (DrawBorder a b color width # calls) = slices calls"

text \<open>
  The layout that the specification describes, for comparison with the loop above: the
  arcs are laid out one after the other from a start angle, an arc that is not positive
  takes no room, and each slice begins where the slice before it ended.
\<close>

fun pie_layout :: "number \<Rightarrow> number list \<Rightarrow> (number \<times> number) list" where
  "pie_layout start [] = []"
| "pie_layout start (arc # arcs) =
     (if js_lt (Fin 0) arc
      then (start, js_add start arc) # pie_layout (js_add start arc) arcs
      else pie_layout start arcs)"

section \<open>Example inputs\<close>


text \<open>
  A comparison with one added file and one changed file, and stand-ins for the two
  imported functions: a CI service that knows the builds 2 and 1 (newest first) and
  a comparison that delivers \<open>example_changes\<close>. The world is the number of calls made
  to the CI service.
\<close>

definition example_changes :: BuildChanges where
  "example_changes =
     \<lparr>newItems = [\<lparr>path = ''a.js'', size_f = Fin 10, gzipSize = Fin 5\<rparr>],
      deletedItems = [],
      sameItems = [],
      changedItems = [(\<lparr>path = ''dist/b.js'', size_f = Fin 100, gzipSize = Fin 40\<rparr>,
                       \<lparr>path = ''dist/b.js'', size_f = Fin 150, gzipSize = Fin 40\<rparr>)]\<rparr>"

definition example_unpaired :: BuildChanges where
  "example_unpaired =
     \<lparr>newItems = [\<lparr>path = ''out/new.js'', size_f = Fin 200, gzipSize = Fin 80\<rparr>],
      deletedItems = [\<lparr>path = ''out/old.js'', size_f = Fin 200, gzipSize = Fin 80\<rparr>],
      sameItems = [\<lparr>path = ''same.js'', size_f = Fin 7, gzipSize = Fin 3\<rparr>],
      changedItems = []\<rparr>"

definition example_getBuildInfo :: "nat list \<Rightarrow> (nat, nat) getBuildInfo_fn" where
  "example_getBuildInfo builds user repo branch n w = (Inr (take n builds), Suc w)"

definition example_getChanges :: "(nat, nat) getChanges_fn" where
  "example_getChanges previousBuildInfo currentBuildInfo w = (Inr example_changes, Suc w)"

text \<open>
  Stand-ins for the unit table and the locale formatting, and a tree node of 1234 bytes.
\<close>

definition example_formats :: Formats where
  "example_formats =
     \<lparr>byte_units = (\<lambda>unit. if unit = ''KiB'' then Some (Fin 1024) else None),
      format_grouped = (\<lambda>n. if n = Fin 1234 then ''1,234'' else ''?''),
      format_fixed2 = (\<lambda>n. ''?'')\<rparr>"

definition example_node :: TreeNode where
  "example_node = \<lparr>size_n = Fin 1234, childStats = []\<rparr>"

text \<open>
  Three containers: the one of the specification, with 300 bytes of type \<open>t\<close> and 100
  of type \<open>r\<close>; one of a differential report, where type \<open>t\<close> shrank by 300 bytes, type
  \<open>r\<close> grew by 100 and type \<open>o\<close> did not change; and one with 9 and 2 bytes. The fill
  colour of the icon of a type is a stand-in.
\<close>

definition example_icon_color :: "string \<Rightarrow> string" where
  "example_icon_color ty = ''fill-'' @ ty"

definition example_container :: TreeNode where
  "example_container =
     \<lparr>size_n = Fin 400,
      childStats = [(''t'', \<lparr>size_s = Fin 300, count_s = Fin 1\<rparr>),
                    (''r'', \<lparr>size_s = Fin 100, count_s = Fin 1\<rparr>)]\<rparr>"

definition example_diff_container :: TreeNode where
  "example_diff_container =
     \<lparr>size_n = Fin (- 200),
      childStats = [(''t'', \<lparr>size_s = Fin (- 300), count_s = Fin 1\<rparr>),
                    (''r'', \<lparr>size_s = Fin 100, count_s = Fin 1\<rparr>),
                    (''o'', \<lparr>size_s = Fin 0, count_s = Fin 0\<rparr>)]\<rparr>"

definition example_uneven :: TreeNode where
  "example_uneven =
     \<lparr>size_n = Fin 11,
      childStats = [(''t'', \<lparr>size_s = Fin 9, count_s = Fin 1\<rparr>),
                    (''r'', \<lparr>size_s = Fin 2, count_s = Fin 1\<rparr>)]\<rparr>"

section \<open>Properties of binary64 rounding\<close>

subsection \<open>The binade of a positive rational\<close>


lemma binade_bounds:
  assumes "0 < x"
  shows "2 powi binade x \<le> x" and "x < 2 powi (binade x + 1)"
proof -
  have "2 powi binade x \<le> x \<and> x < 2 powi (binade x + 1)"
  proof (cases "1 \<le> x")
    case True
    define n where "n = \<lfloor>x\<rfloor>"
    have n: "0 < n" using True by (simp add: n_def)
    then have k: "1 \<le> bitlen n"
      using bitlen_eq_zero_iff [of n] bitlen_nonneg [of n] by linarith
    from bitlen_bounds [OF n] have lo: "2 ^ nat (bitlen n - 1) \<le> n" and hi: "n < 2 ^ nat (bitlen n)"
      by simp_all
    have e: "binade x = bitlen n - 1"
      using True by (simp add: binade_def n_def)
    have "(2::rat) powi (bitlen n - 1) = 2 ^ nat (bitlen n - 1)"
      using k by (simp add: power_int_nonneg_exp)
    also have "\<dots> = of_int (2 ^ nat (bitlen n - 1))" by simp
    also have "\<dots> \<le> of_int n" using lo by (simp only: of_int_le_iff)
    also have "\<dots> \<le> x" by (simp add: n_def)
    finally have one: "2 powi binade x \<le> x" by (simp add: e)
    have "n + 1 \<le> 2 ^ nat (bitlen n)" using hi by simp
    then have "(of_int (n + 1) :: rat) \<le> of_int (2 ^ nat (bitlen n))"
      by (simp only: of_int_le_iff)
    moreover have "x < of_int (n + 1)" using floor_correct [of x] by (simp add: n_def)
    ultimately have "x < of_int (2 ^ nat (bitlen n))" by linarith
    also have "\<dots> = 2 powi (bitlen n)"
      using k by (simp add: power_int_nonneg_exp)
    finally have "x < 2 powi (binade x + 1)" by (simp add: e)
    with one show ?thesis by simp
  next
    case False
    define y where "y = 1 / x"
    define n where "n = \<lceil>y\<rceil> - 1"
    have y: "1 < y" using False assms by (simp add: y_def)
    then have n: "0 < n" using ceiling_correct [of y] by (simp add: n_def)
    then have k: "1 \<le> bitlen n"
      using bitlen_eq_zero_iff [of n] bitlen_nonneg [of n] by linarith
    from bitlen_bounds [OF n] have lo: "2 ^ nat (bitlen n - 1) \<le> n" and hi: "n < 2 ^ nat (bitlen n)"
      by simp_all
    have e: "binade x = - bitlen n"
      using False by (simp add: binade_def n_def y_def)
    have x: "x = 1 / y" using assms by (simp add: y_def)
    have "n + 1 \<le> 2 ^ nat (bitlen n)" using hi by simp
    then have "(of_int (n + 1) :: rat) \<le> of_int (2 ^ nat (bitlen n))"
      by (simp only: of_int_le_iff)
    moreover have "y \<le> of_int (n + 1)" using ceiling_correct [of y] by (simp add: n_def)
    ultimately have "y \<le> of_int (2 ^ nat (bitlen n))" by linarith
    also have "\<dots> = 2 powi (bitlen n)"
      using k by (simp add: power_int_nonneg_exp)
    finally have "y \<le> 2 powi (bitlen n)" .
    then have "1 / 2 powi (bitlen n) \<le> 1 / y"
      using y by (intro divide_left_mono) simp_all
    moreover have "(2::rat) powi binade x = 1 / 2 powi (bitlen n)"
      by (simp only: e power_int_minus_divide)
    moreover have x': "1 / y = x"
      using assms by (simp add: y_def)
    ultimately have one: "2 powi binade x \<le> x"
      by linarith
    have "(of_int (2 ^ nat (bitlen n - 1)) :: rat) \<le> of_int n"
      using lo by (simp only: of_int_le_iff)
    moreover have "of_int n < y" using ceiling_correct [of y] by (simp add: n_def)
    ultimately have "of_int (2 ^ nat (bitlen n - 1)) < y" by linarith
    moreover have "(of_int (2 ^ nat (bitlen n - 1)) :: rat) = 2 powi (bitlen n - 1)"
      using k by (simp add: power_int_nonneg_exp)
    ultimately have "2 powi (bitlen n - 1) < y" by simp
    moreover have "0 < y * 2 powi (bitlen n - 1)"
      using y by (intro mult_pos_pos) simp_all
    ultimately have "1 / y < 1 / 2 powi (bitlen n - 1)"
      by (intro divide_strict_left_mono) simp_all
    also have "\<dots> = 2 powi (- (bitlen n - 1))"
      by (simp only: power_int_minus_divide)
    finally have "x < 2 powi (- (bitlen n - 1))"
      by (simp only: x')
    moreover have "binade x + 1 = - (bitlen n - 1)"
      by (simp add: e)
    ultimately have "x < 2 powi (binade x + 1)"
      by simp
    with one show ?thesis by simp
  qed
  then show "2 powi binade x \<le> x" and "x < 2 powi (binade x + 1)" by simp_all
qed

lemma pow2_less_cancel:
  assumes "(2::rat) powi a < 2 powi b"
  shows "a < b"
proof (rule ccontr)
  assume "\<not> a < b"
  then have "b \<le> a" by simp
  then have "(2::rat) powi b \<le> 2 powi a"
    by (intro power_int_increasing) simp_all
  with assms show False by simp
qed

lemma pow2_mono:
  assumes "a \<le> b"
  shows "(2::rat) powi a \<le> 2 powi b"
  using assms by (intro power_int_increasing) simp_all

lemma binade_unique:
  assumes "2 powi e \<le> x" and "x < 2 powi (e + 1)"
  shows "binade x = e"
proof -
  have pos: "0 < x"
    using assms(1) zero_less_power_int [of "2::rat" e] by linarith
  note b = binade_bounds [OF pos]
  have "(2::rat) powi e < 2 powi (binade x + 1)" using assms(1) b(2) by linarith
  then have "e < binade x + 1" by (rule pow2_less_cancel)
  moreover have "(2::rat) powi binade x < 2 powi (e + 1)" using assms(2) b(1) by linarith
  then have "binade x < e + 1" by (rule pow2_less_cancel)
  ultimately show ?thesis by linarith
qed

lemma binade_mono:
  assumes "0 < x" and "x \<le> y"
  shows "binade x \<le> binade y"
proof -
  have "0 < y" using assms by linarith
  then have "y < 2 powi (binade y + 1)" by (rule binade_bounds)
  moreover have "2 powi binade x \<le> x" using assms(1) by (rule binade_bounds)
  ultimately have "(2::rat) powi binade x < 2 powi (binade y + 1)"
    using assms(2) by linarith
  then have "binade x < binade y + 1" by (rule pow2_less_cancel)
  then show ?thesis by simp
qed

subsection \<open>Rounding to the nearest integer\<close>

lemma rne_of_int: "rne (of_int m) = m"
  by (simp add: rne_def)

lemma rne_mono:
  assumes "x \<le> y"
  shows "rne x \<le> rne y"
proof (cases "\<lfloor>x\<rfloor> = \<lfloor>y\<rfloor>")
  case True
  with assms show ?thesis
    by (auto simp: rne_def Let_def)
next
  case False
  with assms have "\<lfloor>x\<rfloor> + 1 \<le> \<lfloor>y\<rfloor>"
    using floor_mono [OF assms] by linarith
  moreover have "rne x \<le> \<lfloor>x\<rfloor> + 1"
    by (simp add: rne_def Let_def)
  moreover have "\<lfloor>y\<rfloor> \<le> rne y"
    by (simp add: rne_def Let_def)
  ultimately show ?thesis by linarith
qed

lemma rne_le_int:
  assumes "x \<le> of_int m"
  shows "rne x \<le> m"
  using rne_mono [OF assms] by (simp add: rne_of_int)

lemma rne_ge_int:
  assumes "of_int m \<le> x"
  shows "m \<le> rne x"
  using rne_mono [OF assms] by (simp add: rne_of_int)

lemma rne_eqI:
  assumes "\<bar>x - of_int m\<bar> < 1 / 2"
  shows "rne x = m"
proof -
  have lo: "of_int m - 1 / 2 < x" and hi: "x < of_int m + 1 / 2"
    using assms by linarith+
  have "of_int (m - 1) \<le> x" using lo by simp
  then have "m - 1 \<le> \<lfloor>x\<rfloor>" by (simp only: le_floor_iff)
  moreover have "x < of_int (m + 1)" using hi by simp
  then have "\<lfloor>x\<rfloor> < m + 1" by (simp only: floor_less_iff)
  ultimately have "\<lfloor>x\<rfloor> = m \<or> \<lfloor>x\<rfloor> = m - 1"
    by linarith
  then show ?thesis
  proof
    assume f: "\<lfloor>x\<rfloor> = m"
    then have "x - of_int \<lfloor>x\<rfloor> < 1 / 2" using hi by simp
    then show ?thesis by (simp add: rne_def Let_def f)
  next
    assume f: "\<lfloor>x\<rfloor> = m - 1"
    then have "1 / 2 < x - of_int \<lfloor>x\<rfloor>" using lo by simp
    then show ?thesis by (simp add: rne_def Let_def f)
  qed
qed

lemma rne_minus: "rne (- x) = - rne x"
proof (cases "x = of_int \<lfloor>x\<rfloor>")
  case True
  then obtain m where "x = of_int m" ..
  then have "- x = of_int (- m)" by simp
  then show ?thesis
    using \<open>x = of_int m\<close> by (simp only: rne_of_int)
next
  case False
  then have "of_int \<lfloor>x\<rfloor> < x"
    using floor_correct [of x] by linarith
  then have "of_int (- \<lfloor>x\<rfloor> - 1) \<le> - x" and "- x < of_int (- \<lfloor>x\<rfloor> - 1) + 1"
    using floor_correct [of x] by simp_all
  then have f: "\<lfloor>- x\<rfloor> = - \<lfloor>x\<rfloor> - 1"
    by (intro floor_unique) simp_all
  have d: "- x - of_int \<lfloor>- x\<rfloor> = 1 - (x - of_int \<lfloor>x\<rfloor>)"
    by (simp add: f)
  show ?thesis
    unfolding rne_def Let_def d
    by (simp add: f)
qed

subsection \<open>Rounding to the nearest binary64 value\<close>

lemma ulp_exp_ge: "- 1074 \<le> ulp_exp x"
  by (simp add: ulp_exp_def)

lemma ulp_exp_mono:
  assumes "0 < x" and "x \<le> y"
  shows "ulp_exp x \<le> ulp_exp y"
proof -
  have "binade \<bar>x\<bar> \<le> binade \<bar>y\<bar>"
    using assms by (intro binade_mono) simp_all
  then show ?thesis by (simp add: ulp_exp_def)
qed

lemma ulp_exp_bound:
  assumes "0 < r" and "r < 2 powi (e + 53)" and "- 1074 \<le> e"
  shows "ulp_exp r \<le> e"
proof -
  have "2 powi binade r \<le> r" using assms(1) by (rule binade_bounds)
  with assms(2) have "(2::rat) powi binade r < 2 powi (e + 53)" by linarith
  then have "binade r < e + 53" by (rule pow2_less_cancel)
  with assms(1,3) show ?thesis by (simp add: ulp_exp_def)
qed

lemma scaled_upper:
  assumes "0 < x"
  shows "x / 2 powi ulp_exp x < 2 ^ 53"
proof -
  have "x < 2 powi (binade x + 1)" using assms by (rule binade_bounds)
  also have "\<dots> \<le> 2 powi (ulp_exp x + 53)"
    using assms by (intro pow2_mono) (simp add: ulp_exp_def)
  also have "\<dots> = 2 powi ulp_exp x * 2 ^ 53"
    by (simp add: power_int_add)
  finally show ?thesis
    by (simp add: pos_divide_less_eq mult.commute)
qed

lemma scaled_lower:
  assumes "0 < x" and "- 1022 \<le> binade x"
  shows "2 ^ 52 \<le> x / 2 powi ulp_exp x"
proof -
  have e: "binade x = ulp_exp x + 52"
    using assms by (simp add: ulp_exp_def)
  have "(2::rat) powi ulp_exp x * 2 ^ 52 = 2 powi (ulp_exp x + 52)"
    by (simp add: power_int_add)
  also have "\<dots> \<le> x"
    using binade_bounds(1) [OF assms(1)] by (simp only: e)
  finally show ?thesis
    by (simp add: pos_le_divide_eq mult.commute)
qed

lemma nearest_minus: "nearest (- x) = - nearest x"
  by (simp add: nearest_def ulp_exp_def rne_minus)

lemma nearest_zero: "nearest 0 = 0"
  by (simp add: nearest_def rne_def)

lemma nearest_nonneg:
  assumes "0 \<le> x"
  shows "0 \<le> nearest x"
proof -
  have "of_int 0 \<le> x / 2 powi ulp_exp x" using assms by simp
  then have "0 \<le> rne (x / 2 powi ulp_exp x)" by (rule rne_ge_int)
  then show ?thesis by (simp add: nearest_def)
qed

lemma nearest_mono_pos:
  assumes "0 < x" and "x \<le> y"
  shows "nearest x \<le> nearest y"
proof (cases "ulp_exp x = ulp_exp y")
  case True
  have "x / 2 powi ulp_exp y \<le> y / 2 powi ulp_exp y"
    using assms(2) by (simp add: divide_right_mono)
  then have "rne (x / 2 powi ulp_exp y) \<le> rne (y / 2 powi ulp_exp y)"
    by (rule rne_mono)
  then have "(of_int (rne (x / 2 powi ulp_exp y)) :: rat) \<le> of_int (rne (y / 2 powi ulp_exp y))"
    by (simp only: of_int_le_iff)
  then show ?thesis
    by (simp add: nearest_def True mult_right_mono)
next
  case False
  have ypos: "0 < y" using assms by linarith
  from False ulp_exp_mono [OF assms] have lt: "ulp_exp x + 1 \<le> ulp_exp y" by linarith
  have "x / 2 powi ulp_exp x \<le> of_int (2 ^ 53)"
    using scaled_upper [OF assms(1)] by simp
  then have "rne (x / 2 powi ulp_exp x) \<le> 2 ^ 53" by (rule rne_le_int)
  then have "(of_int (rne (x / 2 powi ulp_exp x)) :: rat) \<le> of_int (2 ^ 53)"
    by (simp only: of_int_le_iff)
  then have "nearest x \<le> 2 ^ 53 * 2 powi ulp_exp x"
    by (simp add: nearest_def mult_right_mono)
  also have "\<dots> = 2 powi (ulp_exp x + 1 + 52)"
    by (simp add: power_int_add)
  also have "\<dots> \<le> 2 powi (ulp_exp y + 52)"
    using lt by (intro pow2_mono) simp
  finally have upper: "nearest x \<le> 2 powi (ulp_exp y + 52)" .
  have "- 1074 < ulp_exp y" using lt ulp_exp_ge [of x] by linarith
  then have normal: "- 1022 \<le> binade y"
    using ypos by (simp add: ulp_exp_def max_def split: if_splits)
  have "of_int (2 ^ 52) \<le> y / 2 powi ulp_exp y"
    using scaled_lower [OF ypos normal] by simp
  then have "2 ^ 52 \<le> rne (y / 2 powi ulp_exp y)" by (rule rne_ge_int)
  then have "(of_int (2 ^ 52) :: rat) \<le> of_int (rne (y / 2 powi ulp_exp y))"
    by (simp only: of_int_le_iff)
  then have "2 ^ 52 * 2 powi ulp_exp y \<le> nearest y"
    by (simp add: nearest_def mult_right_mono)
  moreover have "(2::rat) ^ 52 * 2 powi ulp_exp y = 2 powi (ulp_exp y + 52)"
    by (simp add: power_int_add)
  ultimately show ?thesis using upper by linarith
qed

lemma nearest_fixed:
  assumes "0 < r" and "r = of_int m * 2 powi e" and "ulp_exp r \<le> e"
  shows "nearest r = r"
proof -
  define k where "k = nat (e - ulp_exp r)"
  define q :: rat where "q = 2 powi ulp_exp r"
  have qpos: "0 < q" by (simp add: q_def)
  have "(2::rat) powi e = 2 powi (ulp_exp r + int k)"
    using assms(3) by (simp add: k_def)
  also have "\<dots> = q * 2 ^ k"
    by (simp add: power_int_add q_def)
  finally have pe: "2 powi e = q * 2 ^ k" .
  have rq: "r = of_int (m * 2 ^ k) * q"
    by (simp add: assms(2) pe)
  then have "r / q = of_int (m * 2 ^ k)"
    using qpos by simp
  then have "rne (r / q) = m * 2 ^ k"
    by (simp only: rne_of_int)
  then have "nearest r = of_int (m * 2 ^ k) * q"
    by (simp add: nearest_def q_def)
  with rq show ?thesis by simp
qed

lemma nearest_idem_pos:
  assumes "0 < x"
  shows "nearest (nearest x) = nearest x"
proof -
  define m where "m = rne (x / 2 powi ulp_exp x)"
  define r where "r = nearest x"
  have r: "r = of_int m * 2 powi ulp_exp x"
    by (simp add: r_def m_def nearest_def)
  have "x / 2 powi ulp_exp x \<le> of_int (2 ^ 53)"
    using scaled_upper [OF assms] by simp
  then have m_le: "m \<le> 2 ^ 53" unfolding m_def by (rule rne_le_int)
  have "of_int 0 \<le> x / 2 powi ulp_exp x" using assms by simp
  then have m_ge: "0 \<le> m" unfolding m_def by (rule rne_ge_int)
  consider "m = 0" | "0 < m" "m < 2 ^ 53" | "m = 2 ^ 53"
    using m_le m_ge by linarith
  then have "nearest r = r"
  proof cases
    case 1
    then show ?thesis by (simp add: r nearest_zero)
  next
    case 2
    then have pos: "0 < r" by (simp add: r)
    have "(of_int m :: rat) < of_int (2 ^ 53)"
      using 2 by (simp only: of_int_less_iff)
    then have "r < 2 ^ 53 * 2 powi ulp_exp x"
      by (simp add: r)
    also have "\<dots> = 2 powi (ulp_exp x + 53)"
      by (simp add: power_int_add)
    finally have "ulp_exp r \<le> ulp_exp x"
      using pos ulp_exp_ge [of x] by (intro ulp_exp_bound)
    with pos r show ?thesis by (rule nearest_fixed)
  next
    case 3
    then have r': "r = of_int (2 ^ 52) * 2 powi (ulp_exp x + 1)"
      by (simp add: r power_int_add)
    then have pos: "0 < r" by simp
    have "r = 2 powi (ulp_exp x + 53)"
      by (simp add: r 3 power_int_add)
    also have "\<dots> < 2 powi (ulp_exp x + 1 + 53)"
      by (intro power_int_strict_increasing) simp_all
    finally have "ulp_exp r \<le> ulp_exp x + 1"
      using pos ulp_exp_ge [of x] by (intro ulp_exp_bound) simp_all
    with pos r' show ?thesis by (rule nearest_fixed)
  qed
  then show ?thesis by (simp add: r_def)
qed

lemma nearest_idem: "nearest (nearest x) = nearest x"
proof -
  consider "x < 0" | "x = 0" | "0 < x" by linarith
  then show ?thesis
  proof cases
    case 1
    then have "nearest (nearest (- x)) = nearest (- x)"
      by (intro nearest_idem_pos) simp
    then show ?thesis by (simp add: nearest_minus)
  next
    case 2 then show ?thesis by (simp add: nearest_zero)
  next
    case 3 then show ?thesis by (rule nearest_idem_pos)
  qed
qed

lemma nearest_mono_nonneg:
  assumes "0 \<le> x" and "x \<le> y"
  shows "nearest x \<le> nearest y"
proof (cases "x = 0")
  case True
  with assms nearest_nonneg [of y] show ?thesis by (simp add: nearest_zero)
next
  case False
  with assms have "0 < x" by simp
  then show ?thesis using assms(2) by (rule nearest_mono_pos)
qed

lemma nearest_nonpos:
  assumes "x \<le> 0"
  shows "nearest x \<le> 0"
proof -
  have "0 \<le> nearest (- x)" using assms by (intro nearest_nonneg) simp
  then show ?thesis by (simp add: nearest_minus)
qed

lemma to_double_cases:
  "to_double x = Fin (nearest x) \<or> (to_double x = PosInf \<and> 0 < x) \<or> (to_double x = NegInf \<and> x < 0)"
  by (auto simp: to_double_def nearest_zero)

lemma to_double_exact:
  assumes "x = of_int m * 2 powi e" and "\<bar>m\<bar> < 2 ^ 53" and "- 1074 \<le> e" and "\<bar>x\<bar> < 2 ^ 1024"
  shows "to_double x = Fin x"
proof -
  have fixed: "nearest r = r"
    if "0 < r" and "r = of_int k * 2 powi e" and "\<bar>k\<bar> < 2 ^ 53" for r k
  proof -
    have "k < 2 ^ 53"
      using that(3) by linarith
    then have "(of_int k :: rat) < of_int (2 ^ 53)"
      by (simp only: of_int_less_iff)
    then have "r < 2 ^ 53 * 2 powi e"
      by (simp add: that(2))
    also have "\<dots> = 2 powi (e + 53)"
      by (simp add: power_int_add)
    finally have "ulp_exp r \<le> e"
      using that(1) assms(3) by (intro ulp_exp_bound)
    with that(1,2) show ?thesis by (rule nearest_fixed)
  qed
  consider "x < 0" | "x = 0" | "0 < x" by linarith
  then have "nearest x = x"
  proof cases
    case 1
    have "nearest (- x) = - x"
      using 1 assms(1,2) by (intro fixed [of "- x" "- m"]) simp_all
    then show ?thesis by (simp add: nearest_minus)
  next
    case 2 then show ?thesis by (simp add: nearest_zero)
  next
    case 3 then show ?thesis using assms(1,2) by (intro fixed [of x m])
  qed
  with assms(4) show ?thesis by (simp add: to_double_def)
qed

lemma to_double_eval:
  assumes "2 powi b \<le> \<bar>x\<bar>" and "\<bar>x\<bar> < 2 powi (b + 1)" and "e = max b (- 1022) - 52"
    and "\<bar>x / 2 powi e - of_int m\<bar> < 1 / 2" and "\<bar>(of_int m :: rat) * 2 powi e\<bar> < 2 ^ 1024"
  shows "to_double x = Fin (of_int m * 2 powi e)"
proof -
  have "0 < \<bar>x\<bar>"
    using assms(1) zero_less_power_int [of "2::rat" b] by linarith
  then have nz: "x \<noteq> 0" by simp
  have "binade \<bar>x\<bar> = b" using assms(1,2) by (rule binade_unique)
  then have "ulp_exp x = e" by (simp add: ulp_exp_def assms(3))
  moreover have "rne (x / 2 powi e) = m" using assms(4) by (rule rne_eqI)
  ultimately have "nearest x = of_int m * 2 powi e" by (simp add: nearest_def)
  with nz assms(5) show ?thesis by (simp add: to_double_def)
qed

lemma to_double_int:
  assumes "\<bar>n\<bar> < 2 ^ 53"
  shows "to_double (of_int n) = Fin (of_int n)"
proof -
  have "\<bar>of_int n :: rat\<bar> = of_int \<bar>n\<bar>" by simp
  also have "\<dots> < of_int (2 ^ 53)"
    using assms by (simp only: of_int_less_iff)
  also have "\<dots> < 2 ^ 1024" by simp
  finally have "\<bar>of_int n :: rat\<bar> < 2 ^ 1024" .
  then show ?thesis
    using assms by (intro to_double_exact [of _ n 0]) simp_all
qed

lemma js_sub_integers:
  assumes "\<bar>b - a\<bar> < 2 ^ 53"
  shows "js_sub (Fin (of_int b)) (Fin (of_int a)) = Fin (of_int (b - a))"
proof -
  have "js_sub (Fin (of_int b)) (Fin (of_int a)) = to_double (of_int (b - a))"
    by (simp add: js_sub_def)
  with assms show ?thesis
    by (simp only: to_double_int)
qed


subsection \<open>The relative error of rounding\<close>

lemma rne_upper: "of_int (rne y) \<le> y + 1 / 2"
proof -
  have f: "of_int \<lfloor>y\<rfloor> \<le> y" by simp
  consider "y - of_int \<lfloor>y\<rfloor> < 1 / 2" | "1 / 2 \<le> y - of_int \<lfloor>y\<rfloor>" by linarith
  then show ?thesis
  proof cases
    case 1
    then have "rne y = \<lfloor>y\<rfloor>" by (simp add: rne_def Let_def)
    with f show ?thesis by linarith
  next
    case 2
    have "rne y \<le> \<lfloor>y\<rfloor> + 1" by (simp add: rne_def Let_def)
    then have "(of_int (rne y) :: rat) \<le> of_int (\<lfloor>y\<rfloor> + 1)" by (simp only: of_int_le_iff)
    with 2 show ?thesis by simp
  qed
qed

lemma nearest_relative:
  assumes "2 powi (- 1022) \<le> x"
  shows "nearest x \<le> x * (1 + 2 powi (- 53))"
proof -
  have pos: "0 < x"
    using assms zero_less_power_int [of "2::rat" "- 1022"] by linarith
  define q :: rat where "q = 2 powi ulp_exp x"
  have qpos: "0 < q" by (simp add: q_def)
  have "(2::rat) powi (- 1022) < 2 powi (binade x + 1)"
    using assms binade_bounds(2) [OF pos] by linarith
  then have "- 1022 < binade x + 1" by (rule pow2_less_cancel)
  then have e: "binade x = ulp_exp x + 52"
    using pos by (simp add: ulp_exp_def)
  have "q * 2 powi 52 = 2 powi (ulp_exp x + 52)"
    by (simp add: q_def power_int_add)
  also have "\<dots> \<le> x"
    using binade_bounds(1) [OF pos] by (simp only: e)
  finally have big: "q * 2 powi 52 \<le> x" .
  have "nearest x = of_int (rne (x / q)) * q"
    by (simp add: nearest_def q_def)
  also have "\<dots> \<le> (x / q + 1 / 2) * q"
    using rne_upper [of "x / q"] qpos by (intro mult_right_mono) simp_all
  also have "\<dots> = x + q / 2"
    using qpos by (simp add: field_simps)
  also have "q / 2 = (q * 2 powi 52) * 2 powi (- 53)"
    by simp
  also have "x + (q * 2 powi 52) * 2 powi (- 53) \<le> x + x * 2 powi (- 53)"
    using big by (simp add: mult_right_mono)
  finally show ?thesis
    by (simp add: algebra_simps)
qed

lemma nearest_smallest_normal: "nearest (2 powi (- 1022)) = 2 powi (- 1022)"
proof -
  have "(2::rat) powi (- 1022) < 2 powi (- 1022 + 53)"
    by (intro power_int_strict_increasing) simp_all
  then have "ulp_exp (2 powi (- 1022)) \<le> - 1022"
    by (intro ulp_exp_bound) simp_all
  then show ?thesis
    by (intro nearest_fixed [of _ 1]) simp_all
qed

lemma to_double_normal:
  assumes "2 powi (- 1022) \<le> x" and "x * (1 + 2 powi (- 53)) < 2 ^ 1024"
  shows "\<exists>r. to_double x = Fin r \<and> 2 powi (- 1022) \<le> r \<and> r \<le> x * (1 + 2 powi (- 53))"
proof -
  have pos: "0 < x"
    using assms(1) zero_less_power_int [of "2::rat" "- 1022"] by linarith
  have up: "nearest x \<le> x * (1 + 2 powi (- 53))"
    using assms(1) by (rule nearest_relative)
  have "nearest (2 powi (- 1022)) \<le> nearest x"
    using assms(1) by (intro nearest_mono_pos) simp_all
  then have low: "2 powi (- 1022) \<le> nearest x"
    by (simp only: nearest_smallest_normal)
  then have "0 \<le> nearest x"
    using zero_less_power_int [of "2::rat" "- 1022"] by linarith
  then have "\<bar>nearest x\<bar> < 2 ^ 1024"
    using up assms(2) by simp
  then have "to_double x = Fin (nearest x)"
    using pos by (simp add: to_double_def)
  with low up show ?thesis by blast
qed

lemma js_abs_to_double: "js_abs (to_double x) = to_double \<bar>x\<bar>"
proof (cases "0 \<le> x")
  case True
  then have "0 \<le> nearest x" by (rule nearest_nonneg)
  with True show ?thesis by (simp add: to_double_def)
next
  case False
  then have neg: "x < 0" by simp
  then have "0 \<le> nearest (- x)" by (intro nearest_nonneg) simp
  then have "\<bar>nearest x\<bar> = nearest (- x)" and "\<bar>nearest (- x)\<bar> = nearest (- x)"
    using nearest_minus [of x] by simp_all
  with neg show ?thesis by (simp add: to_double_def)
qed

lemma pow_one_plus:
  fixes u :: rat
  assumes "0 \<le> u" and "of_nat m * u \<le> 1"
  shows "(1 + u) ^ m * (1 - of_nat m * u) \<le> 1"
  using assms(2)
proof (induction m)
  case 0
  show ?case by simp
next
  case (Suc m)
  have "of_nat m * u \<le> of_nat (Suc m) * u"
    using assms(1) by (intro mult_right_mono) simp_all
  with Suc.prems have mu: "of_nat m * u \<le> 1" by (rule order_trans [rotated])
  have "(1 + u) * (1 - of_nat (Suc m) * u) = 1 - of_nat m * u - of_nat (Suc m) * (u * u)"
    by (simp add: algebra_simps)
  also have "\<dots> \<le> 1 - of_nat m * u"
    using assms(1) by simp
  finally have "(1 + u) * (1 - of_nat (Suc m) * u) \<le> 1 - of_nat m * u" .
  moreover have "0 \<le> (1 + u) ^ m" using assms(1) by simp
  ultimately have "(1 + u) ^ m * ((1 + u) * (1 - of_nat (Suc m) * u))
      \<le> (1 + u) ^ m * (1 - of_nat m * u)"
    by (rule mult_left_mono)
  also have "\<dots> \<le> 1" using Suc.IH [OF mu] .
  finally show ?case by (simp add: mult_ac)
qed

lemma pow_ulp_bound:
  assumes "m < 2 ^ 53"
  shows "(1 + 2 powi (- 53)) ^ m \<le> (2::rat) ^ 53"
proof -
  define u :: rat where "u = 2 powi (- 53)"
  define N :: rat where "N = 2 ^ 53"
  have u: "0 < u" "N * u = 1" by (simp_all add: u_def N_def)
  have "(of_nat (Suc m) :: rat) \<le> of_nat (2 ^ 53)"
    unfolding of_nat_le_iff using assms by simp
  then have le: "(of_nat m :: rat) + 1 \<le> N" by (simp add: N_def)
  have "((of_nat m :: rat) + 1) * u \<le> N * u"
    using le u(1) by (intro mult_right_mono) simp_all
  then have m1: "(of_nat m :: rat) * u \<le> 1 - u"
    unfolding u(2) by (simp add: algebra_simps)
  then have "(of_nat m :: rat) * u \<le> 1" using u(1) by linarith
  from pow_one_plus [OF _ this] u(1) have "(1 + u) ^ m * (1 - of_nat m * u) \<le> 1"
    by simp
  moreover have "(1 + u) ^ m * u \<le> (1 + u) ^ m * (1 - of_nat m * u)"
    using m1 u(1) by (intro mult_left_mono) simp_all
  ultimately have "(1 + u) ^ m * u \<le> 1" by linarith
  then have "(1 + u) ^ m * u * N \<le> 1 * N"
    by (intro mult_right_mono) (simp_all add: N_def)
  moreover have "(1 + u) ^ m * u * N = (1 + u) ^ m"
    using u(2) by (simp add: mult.assoc mult.commute [of u N])
  ultimately have "(1 + u) ^ m \<le> N" by simp
  then show ?thesis unfolding u_def N_def .
qed

lemma below_overflow:
  fixes y :: rat
  assumes "y \<le> 2 ^ 60"
  shows "y < 2 ^ 1024"
proof -
  have "(2::rat) ^ 60 < 2 ^ 1024"
    by (rule power_strict_increasing) simp_all
  with assms show ?thesis by (rule le_less_trans)
qed

lemma of_rat_ulp: "real_of_rat (1 + 2 powi (- 53)) = 1 + 2 powi (- 53)"
  by (simp add: of_rat_divide)

section \<open>Evaluating the arithmetic of the examples\<close>

lemma to_double_zero: "to_double 0 = Fin 0"
  by (simp add: to_double_def)

lemma to_double_numeral:
  assumes "(numeral n :: int) < 2 ^ 53"
  shows "to_double (numeral n) = Fin (numeral n)"
proof -
  have "\<bar>numeral n :: rat\<bar> < 2 ^ 53"
    using assms by (metis abs_numeral of_int_less_iff of_int_numeral of_int_power)
  also have "(2::rat) ^ 53 < 2 ^ 1024"
    by (intro power_strict_increasing) simp_all
  finally have "\<bar>numeral n :: rat\<bar> < 2 ^ 1024" .
  then show ?thesis
    using assms by (intro to_double_exact [of _ "numeral n" 0]) simp_all
qed

lemma to_double_neg_numeral:
  assumes "(numeral n :: int) < 2 ^ 53"
  shows "to_double (- numeral n) = Fin (- numeral n)"
proof -
  have "\<bar>numeral n :: rat\<bar> < 2 ^ 53"
    using assms by (metis abs_numeral of_int_less_iff of_int_numeral of_int_power)
  also have "(2::rat) ^ 53 < 2 ^ 1024"
    by (intro power_strict_increasing) simp_all
  finally have "\<bar>- numeral n :: rat\<bar> < 2 ^ 1024" by simp
  then show ?thesis
    using assms by (intro to_double_exact [of _ "- numeral n" 0]) simp_all
qed

text \<open>
  The quotients, products and sums that occur in the three example containers. All but
  five are values of the format, which rounding leaves alone; \<open>9 / 11\<close>, \<open>2 / 11\<close>, the
  two arcs made from them and the sum of these arcs are rounded.
\<close>

lemma double_3_4: "to_double (3 / 4) = Fin (3 / 4)"
  by (rule to_double_exact [of _ 3 "- 2"]) simp_all

lemma double_1_4: "to_double (1 / 4) = Fin (1 / 4)"
  by (rule to_double_exact [of _ 1 "- 2"]) simp_all

lemma double_3_2: "to_double (3 / 2) = Fin (3 / 2)"
  by (rule to_double_exact [of _ 3 "- 1"]) simp_all

lemma double_1_2: "to_double (1 / 2) = Fin (1 / 2)"
  by (rule to_double_exact [of _ 1 "- 1"]) simp_all

lemma double_3_2_pi: "to_double (2652839157010665 / 562949953421312) = Fin (2652839157010665 / 562949953421312)"
  by (rule to_double_exact [of _ 2652839157010665 "- 49"]) simp_all

lemma double_1_2_pi: "to_double (884279719003555 / 562949953421312) = Fin (884279719003555 / 562949953421312)"
  by (rule to_double_exact [of _ 884279719003555 "- 49"]) simp_all

lemma double_2_pi: "to_double (884279719003555 / 140737488355328) = Fin (884279719003555 / 140737488355328)"
  by (rule to_double_exact [of _ 884279719003555 "- 47"]) simp_all

lemma double_9_11: "to_double (9 / 11) = Fin (7369526662969903 / 9007199254740992)"
  using to_double_eval [of "- 1" "9 / 11" "- 53" 7369526662969903] by simp

lemma double_2_11: "to_double (2 / 11) = Fin (3275345183542179 / 18014398509481984)"
  using to_double_eval [of "- 3" "2 / 11" "- 55" 6550690367084358] by simp

lemma double_9_11_twice: "to_double (7369526662969903 / 4503599627370496) = Fin (7369526662969903 / 4503599627370496)"
  by (rule to_double_exact [of _ 7369526662969903 "- 52"]) simp_all

lemma double_2_11_twice: "to_double (3275345183542179 / 9007199254740992) = Fin (3275345183542179 / 9007199254740992)"
  by (rule to_double_exact [of _ 3275345183542179 "- 53"]) simp_all

lemma double_9_11_arc: "to_double (6516722966720232197584115005165 / 1267650600228229401496703205376) = Fin (180875397068909 / 35184372088832)"
  using to_double_eval [of 2 "6516722966720232197584115005165 / 1267650600228229401496703205376" "- 50" 5788012706205088] by simp

lemma double_2_11_arc: "to_double (2896321318542325322895193446345 / 2535301200456458802993406410752) = Fin (5144900183293411 / 4503599627370496)"
  using to_double_eval [of 0 "2896321318542325322895193446345 / 2535301200456458802993406410752" "- 52" 5144900183293411] by simp

lemma double_9_11_angle: "to_double (180875397068909 / 35184372088832) = Fin (180875397068909 / 35184372088832)"
  by (rule to_double_exact [of _ 180875397068909 "- 45"]) simp_all

lemma double_9_2_angle: "to_double (28296951008113763 / 4503599627370496) = Fin (7074237752028441 / 1125899906842624)"
  using to_double_eval [of 2 "28296951008113763 / 4503599627370496" "- 50" 7074237752028441] by simp

lemma double_neg_3_4: "to_double (- (3 / 4)) = Fin (- (3 / 4))"
  by (rule to_double_exact [of _ "- 3" "- 2"]) simp_all

lemmas double_evals = to_double_zero to_double_numeral to_double_neg_numeral
  double_3_4 double_1_4 double_neg_3_4 double_3_2 double_1_2 double_3_2_pi double_1_2_pi double_2_pi
  double_9_11 double_2_11 double_9_11_twice double_2_11_twice double_9_11_arc double_2_11_arc
  double_9_11_angle double_9_2_angle

lemmas update_evals = updateInfocard_def Let_def state_has_def sort_entries_def totalSize_of_def
  comparefn_def js_sub_def percentage_of_def arcLength_of_def Math_PI_def updateBreakdownRow_def
  infoRows_def infoRows_keys_def js_strict_eq_def example_icon_color_def

lemma two_pi: "js_mul (Fin 2) Math_PI = Fin (884279719003555 / 140737488355328)"
  by (simp add: Math_PI_def double_evals)

lemma update_example_container:
  "updateInfocard example_icon_color [] example_container infoRows_keys
     = Inr \<lparr>extraRows = [''b'', ''d'', ''R'', ''x'', ''m'', ''p'', ''P'', ''o''],
            tableBody = [''t'', ''r''],
            canvas = [DrawSlice (Fin 0) (Fin (2652839157010665 / 562949953421312)) ''fill-t'',
                      DrawSlice (Fin (2652839157010665 / 562949953421312))
                        (Fin (884279719003555 / 140737488355328)) ''fill-r''],
            angleStart = Fin (884279719003555 / 140737488355328)\<rparr>"
  by (simp add: update_evals example_container_def double_evals)

lemma update_example_uneven:
  "updateInfocard example_icon_color [] example_uneven infoRows_keys
     = Inr \<lparr>extraRows = [''b'', ''d'', ''R'', ''x'', ''m'', ''p'', ''P'', ''o''],
            tableBody = [''t'', ''r''],
            canvas = [DrawSlice (Fin 0) (Fin (180875397068909 / 35184372088832)) ''fill-t'',
                      DrawSlice (Fin (180875397068909 / 35184372088832))
                        (Fin (7074237752028441 / 1125899906842624)) ''fill-r''],
            angleStart = Fin (7074237752028441 / 1125899906842624)\<rparr>"
  by (simp add: update_evals example_uneven_def double_evals)

lemma update_example_diff_container:
  "updateInfocard example_icon_color [(''diff_mode'', ''on'')] example_diff_container infoRows_keys
     = Inr \<lparr>extraRows = [''b'', ''d'', ''R'', ''x'', ''m'', ''p'', ''P''],
            tableBody = [''r'', ''t''],
            canvas = [DrawSlice (Fin 0) (Fin (884279719003555 / 562949953421312)) ''fill-r'',
                      DrawBorder (Fin 0) (Fin (884279719003555 / 562949953421312)) ''#ea4335''
                        (Fin 16),
                      DrawSlice (Fin (884279719003555 / 562949953421312))
                        (Fin (884279719003555 / 140737488355328)) ''fill-t'',
                      DrawBorder (Fin (884279719003555 / 562949953421312))
                        (Fin (884279719003555 / 140737488355328)) ''#34a853'' (Fin 16)],
            angleStart = Fin (884279719003555 / 140737488355328)\<rparr>"
  by (simp add: update_evals example_diff_container_def double_evals)

section \<open>Properties of the report stream\<close>

lemma length_entries:
  "length (entries (transformChanges t c)) = total_f (meta (transformChanges t c))"
  by (simp add: transformChanges_def)

lemma entries_nth_new:
  assumes "i < length (newItems c)"
  shows "entries (transformChanges t c) ! i = new_entry t (newItems c ! i)"
  using assms by (simp add: transformChanges_def nth_append)

lemma entries_nth_deleted:
  assumes "i < length (deletedItems c)"
  shows "entries (transformChanges t c) ! (length (newItems c) + i)
           = deleted_entry t (deletedItems c ! i)"
  using assms by (simp add: transformChanges_def nth_append)

lemma entries_nth_same:
  assumes "i < length (sameItems c)"
  shows "entries (transformChanges t c) ! (length (newItems c) + length (deletedItems c) + i)
           = same_entry t (sameItems c ! i)"
proof -
  let ?front = "map (new_entry t) (newItems c) @ map (deleted_entry t) (deletedItems c)"
  have "entries (transformChanges t c)
          = ?front @ (map (same_entry t) (sameItems c) @ map (changed_entry t) (changedItems c))"
    by (simp add: transformChanges_def)
  moreover have "length ?front = length (newItems c) + length (deletedItems c)"
    by simp
  ultimately have "entries (transformChanges t c) ! (length (newItems c) + length (deletedItems c) + i)
          = (map (same_entry t) (sameItems c) @ map (changed_entry t) (changedItems c)) ! i"
    by (metis nth_append_length_plus)
  with assms show ?thesis
    by (simp add: nth_append)
qed

lemma entries_nth_changed:
  assumes "i < length (changedItems c)"
  shows "entries (transformChanges t c)
           ! (length (newItems c) + length (deletedItems c) + length (sameItems c) + i)
           = changed_entry t (changedItems c ! i)"
proof -
  let ?front = "map (new_entry t) (newItems c) @ map (deleted_entry t) (deletedItems c)
                  @ map (same_entry t) (sameItems c)"
  have "entries (transformChanges t c) = ?front @ map (changed_entry t) (changedItems c)"
    by (simp add: transformChanges_def)
  moreover have "length ?front
      = length (newItems c) + length (deletedItems c) + length (sameItems c)"
    by simp
  ultimately have "entries (transformChanges t c)
           ! (length (newItems c) + length (deletedItems c) + length (sameItems c) + i)
          = map (changed_entry t) (changedItems c) ! i"
    by (metis nth_append_length_plus)
  with assms show ?thesis
    by simp
qed

text \<open>
  Claim C1. Whatever \<^verbatim>\<open>BuildChanges\<close> the comparison delivers, the stream starts with
  the header, the header's total is the sum of the sizes of the four groups (a changed
  pair counts once), exactly that many records follow the header and nothing else, the
  generator ends without an error, and the header's \<^verbatim>\<open>diff_mode\<close> is true.
\<close>

theorem stream_header_then_total_records:
  assumes builds: "getBuildInfo (at_index inp 0) (at_index inp 1) ''master'' 2 w
                     = (Inr (cur # prev # older), w1)"
    and changes: "getChanges prev cur w1 = (Inr c, w2)"
  shows "\<exists>hdr recs.
           yielded (newlineDelimtedJsonStream t getBuildInfo getChanges inp w)
             = MetaItem hdr # map EntryItem recs
         \<and> hdr = meta (transformChanges t c)
         \<and> recs = entries (transformChanges t c)
         \<and> total_f hdr = length (newItems c) + length (deletedItems c)
                          + length (sameItems c) + length (changedItems c)
         \<and> length recs = total_f hdr
         \<and> diff_mode hdr
         \<and> thrown (newlineDelimtedJsonStream t getBuildInfo getChanges inp w) = None"
proof -
  have run: "newlineDelimtedJsonStream t getBuildInfo getChanges inp w
      = \<lparr>yielded = MetaItem (meta (transformChanges t c))
                     # map EntryItem (entries (transformChanges t c)),
         thrown = None, world = w2\<rparr>"
    using builds changes
    by (simp add: newlineDelimtedJsonStream_def at_index_def Let_def)
  have "total_f (meta (transformChanges t c))
          = length (newItems c) + length (deletedItems c)
            + length (sameItems c) + length (changedItems c)"
    by (simp add: transformChanges_def)
  moreover have "diff_mode (meta (transformChanges t c))"
    by (simp add: transformChanges_def)
  ultimately show ?thesis
    using run length_entries [of t c] by simp
qed

theorem stream_header_then_total_records_witness:
  "\<exists>hdr recs.
     yielded (newlineDelimtedJsonStream ''t'' (example_getBuildInfo [2, 1]) example_getChanges
                (setInput ''owner/repo'') 0)
       = MetaItem hdr # map EntryItem recs
     \<and> hdr = meta (transformChanges ''t'' example_changes)
     \<and> recs = entries (transformChanges ''t'' example_changes)
     \<and> total_f hdr = length (newItems example_changes) + length (deletedItems example_changes)
                      + length (sameItems example_changes) + length (changedItems example_changes)
     \<and> length recs = total_f hdr
     \<and> diff_mode hdr
     \<and> thrown (newlineDelimtedJsonStream ''t'' (example_getBuildInfo [2, 1]) example_getChanges
                (setInput ''owner/repo'') 0) = None"
proof -
  have builds: "example_getBuildInfo [2, 1] (at_index (setInput ''owner/repo'') 0)
                  (at_index (setInput ''owner/repo'') 1) ''master'' 2 0
                = (Inr (2 # 1 # []), Suc 0)"
    by (simp add: example_getBuildInfo_def)
  have changes: "example_getChanges 1 2 (Suc 0) = (Inr example_changes, Suc (Suc 0))"
    by (simp add: example_getChanges_def)
  show ?thesis
    by (rule stream_header_then_total_records
          [where getBuildInfo = "example_getBuildInfo [2, 1]"
             and getChanges = example_getChanges
             and inp = "setInput ''owner/repo''" and w = 0 and t = "''t''",
           OF builds changes])
qed

text \<open>
  Claim C2. The record emitted for the \<open>i\<close>-th changed pair \<open>(old, new)\<close> stands after
  the records of the three other groups; its path is the path of \<open>new\<close>, its single
  symbol is named by the base name of that path, its byte delta is
  \<open>new.size - old.size\<close>, its compressed delta is \<open>new.gzipSize - old.gzipSize\<close> and its
  unit is \<open>+1\<close>. The subtraction is the one of JavaScript numbers; it is the exact
  difference whenever the two sizes are whole numbers whose difference is below \<open>2^53\<close>
  in magnitude. At old sizes 100 and 40 and new sizes 150 and 40 the deltas are 50 and 0
  (the instance below).
\<close>

theorem changed_pair_record:
  assumes "i < length (changedItems c)"
    and "changedItems c ! i = (oldData, newData)"
  shows "entries (transformChanges t c)
           ! (length (newItems c) + length (deletedItems c) + length (sameItems c) + i)
         = \<lparr>entry_p = path newData,
            entry_s = [\<lparr>sym_n = basename (path newData),
                        sym_b = js_sub (size_f newData) (size_f oldData),
                        sym_g = js_sub (gzipSize newData) (gzipSize oldData),
                        sym_t = t, sym_u = Fin 1\<rparr>]\<rparr>
       \<and> (\<forall>a b. size_f oldData = Fin (of_int a) \<and> size_f newData = Fin (of_int b)
                  \<and> \<bar>b - a\<bar> < 2 ^ 53
              \<longrightarrow> js_sub (size_f newData) (size_f oldData) = Fin (of_int (b - a)))
       \<and> (\<forall>a b. gzipSize oldData = Fin (of_int a) \<and> gzipSize newData = Fin (of_int b)
                  \<and> \<bar>b - a\<bar> < 2 ^ 53
              \<longrightarrow> js_sub (gzipSize newData) (gzipSize oldData) = Fin (of_int (b - a)))"
proof (intro conjI allI impI)
  show "entries (transformChanges t c)
           ! (length (newItems c) + length (deletedItems c) + length (sameItems c) + i)
         = \<lparr>entry_p = path newData,
            entry_s = [\<lparr>sym_n = basename (path newData),
                        sym_b = js_sub (size_f newData) (size_f oldData),
                        sym_g = js_sub (gzipSize newData) (gzipSize oldData),
                        sym_t = t, sym_u = Fin 1\<rparr>]\<rparr>"
    using assms entries_nth_changed [of i c t]
    by (simp add: changed_entry_def)
next
  fix a b :: int
  assume "size_f oldData = Fin (of_int a) \<and> size_f newData = Fin (of_int b) \<and> \<bar>b - a\<bar> < 2 ^ 53"
  then show "js_sub (size_f newData) (size_f oldData) = Fin (of_int (b - a))"
    by (simp add: js_sub_integers)
next
  fix a b :: int
  assume "gzipSize oldData = Fin (of_int a) \<and> gzipSize newData = Fin (of_int b)
            \<and> \<bar>b - a\<bar> < 2 ^ 53"
  then show "js_sub (gzipSize newData) (gzipSize oldData) = Fin (of_int (b - a))"
    by (simp add: js_sub_integers)
qed

theorem changed_pair_record_witness:
  "entries (transformChanges ''t''
      \<lparr>newItems = [], deletedItems = [], sameItems = [],
       changedItems = [(\<lparr>path = ''dist/b.js'', size_f = Fin 100, gzipSize = Fin 40\<rparr>,
                        \<lparr>path = ''dist/b.js'', size_f = Fin 150, gzipSize = Fin 40\<rparr>)]\<rparr>) ! 0
     = \<lparr>entry_p = ''dist/b.js'',
        entry_s = [\<lparr>sym_n = ''b.js'', sym_b = Fin 50, sym_g = Fin 0, sym_t = ''t'',
                    sym_u = Fin 1\<rparr>]\<rparr>"
proof -
  let ?old = "\<lparr>path = ''dist/b.js'', size_f = Fin 100, gzipSize = Fin 40\<rparr>"
  let ?new = "\<lparr>path = ''dist/b.js'', size_f = Fin 150, gzipSize = Fin 40\<rparr>"
  let ?c = "\<lparr>newItems = [], deletedItems = [], sameItems = [],
             changedItems = [(?old, ?new)]\<rparr>"
  have len: "0 < length (changedItems ?c)" by simp
  have pr: "changedItems ?c ! 0 = (?old, ?new)" by simp
  have bn: "basename ''dist/b.js'' = ''b.js''"
    by (simp add: basename_def substring_def lastIndexOf_def)
  note inst = changed_pair_record [OF len pr, of "''t''"]
  from inst have rec: "entries (transformChanges ''t'' ?c) ! (0 + 0 + 0 + 0)
     = \<lparr>entry_p = ''dist/b.js'',
        entry_s = [\<lparr>sym_n = basename ''dist/b.js'',
                    sym_b = js_sub (Fin 150) (Fin 100), sym_g = js_sub (Fin 40) (Fin 40),
                    sym_t = ''t'', sym_u = Fin 1\<rparr>]\<rparr>"
    by simp
  have "size_f ?old = Fin (of_int 100) \<and> size_f ?new = Fin (of_int 150)
          \<and> \<bar>150 - 100 :: int\<bar> < 2 ^ 53"
    by simp
  with inst have "js_sub (size_f ?new) (size_f ?old) = Fin (of_int (150 - 100))"
    by blast
  then have b: "js_sub (Fin 150) (Fin 100) = Fin 50"
    by simp
  have "gzipSize ?old = Fin (of_int 40) \<and> gzipSize ?new = Fin (of_int 40)
          \<and> \<bar>40 - 40 :: int\<bar> < 2 ^ 53"
    by simp
  with inst have "js_sub (gzipSize ?new) (gzipSize ?old) = Fin (of_int (40 - 40))"
    by blast
  then have g: "js_sub (Fin 40) (Fin 40) = Fin 0"
    by simp
  from rec show ?thesis
    by (simp add: bn b g)
qed

text \<open>
  Claim C3. The record of the \<open>i\<close>-th added file carries the file's two sizes and unit
  \<open>+1\<close>; the record of the \<open>i\<close>-th removed file carries the two sizes negated and unit
  \<open>-1\<close>; the record of the \<open>i\<close>-th unchanged file carries two zeros and unit \<open>+1\<close>.
  The added records come first, then the removed, then the unchanged ones.
\<close>

theorem unpaired_file_records:
  "(i < length (newItems c) \<longrightarrow>
      entries (transformChanges t c) ! i
        = \<lparr>entry_p = path (newItems c ! i),
           entry_s = [\<lparr>sym_n = basename (path (newItems c ! i)),
                       sym_b = size_f (newItems c ! i),
                       sym_g = gzipSize (newItems c ! i),
                       sym_t = t, sym_u = Fin 1\<rparr>]\<rparr>)
   \<and> (i < length (deletedItems c) \<longrightarrow>
      entries (transformChanges t c) ! (length (newItems c) + i)
        = \<lparr>entry_p = path (deletedItems c ! i),
           entry_s = [\<lparr>sym_n = basename (path (deletedItems c ! i)),
                       sym_b = js_neg (size_f (deletedItems c ! i)),
                       sym_g = js_neg (gzipSize (deletedItems c ! i)),
                       sym_t = t, sym_u = Fin (- 1)\<rparr>]\<rparr>)
   \<and> (i < length (sameItems c) \<longrightarrow>
      entries (transformChanges t c) ! (length (newItems c) + length (deletedItems c) + i)
        = \<lparr>entry_p = path (sameItems c ! i),
           entry_s = [\<lparr>sym_n = basename (path (sameItems c ! i)),
                       sym_b = Fin 0, sym_g = Fin 0, sym_t = t, sym_u = Fin 1\<rparr>]\<rparr>)"
proof (intro conjI impI)
  assume "i < length (newItems c)"
  then show "entries (transformChanges t c) ! i
        = \<lparr>entry_p = path (newItems c ! i),
           entry_s = [\<lparr>sym_n = basename (path (newItems c ! i)),
                       sym_b = size_f (newItems c ! i),
                       sym_g = gzipSize (newItems c ! i),
                       sym_t = t, sym_u = Fin 1\<rparr>]\<rparr>"
    by (simp add: entries_nth_new new_entry_def)
next
  assume "i < length (deletedItems c)"
  then show "entries (transformChanges t c) ! (length (newItems c) + i)
        = \<lparr>entry_p = path (deletedItems c ! i),
           entry_s = [\<lparr>sym_n = basename (path (deletedItems c ! i)),
                       sym_b = js_neg (size_f (deletedItems c ! i)),
                       sym_g = js_neg (gzipSize (deletedItems c ! i)),
                       sym_t = t, sym_u = Fin (- 1)\<rparr>]\<rparr>"
    by (simp add: entries_nth_deleted deleted_entry_def)
next
  assume "i < length (sameItems c)"
  then show "entries (transformChanges t c) ! (length (newItems c) + length (deletedItems c) + i)
        = \<lparr>entry_p = path (sameItems c ! i),
           entry_s = [\<lparr>sym_n = basename (path (sameItems c ! i)),
                       sym_b = Fin 0, sym_g = Fin 0, sym_t = t, sym_u = Fin 1\<rparr>]\<rparr>"
    by (simp add: entries_nth_same same_entry_def)
qed

lemma basename_examples:
  "basename ''out/new.js'' = ''new.js''"
  "basename ''out/old.js'' = ''old.js''"
  "basename ''same.js'' = ''same.js''"
  "basename ''a.js'' = ''a.js''"
  by (simp_all add: basename_def substring_def lastIndexOf_def)

theorem unpaired_file_records_witness:
  "entries (transformChanges ''t'' example_unpaired) ! 0
     = \<lparr>entry_p = ''out/new.js'',
        entry_s = [\<lparr>sym_n = ''new.js'', sym_b = Fin 200, sym_g = Fin 80, sym_t = ''t'',
                    sym_u = Fin 1\<rparr>]\<rparr>
   \<and> entries (transformChanges ''t'' example_unpaired) ! 1
     = \<lparr>entry_p = ''out/old.js'',
        entry_s = [\<lparr>sym_n = ''old.js'', sym_b = Fin (- 200), sym_g = Fin (- 80), sym_t = ''t'',
                    sym_u = Fin (- 1)\<rparr>]\<rparr>
   \<and> entries (transformChanges ''t'' example_unpaired) ! 2
     = \<lparr>entry_p = ''same.js'',
        entry_s = [\<lparr>sym_n = ''same.js'', sym_b = Fin 0, sym_g = Fin 0, sym_t = ''t'',
                    sym_u = Fin 1\<rparr>]\<rparr>"
proof -
  let ?es = "entries (transformChanges ''t'' example_unpaired)"
  have sizes: "0 < length (newItems example_unpaired)"
    "0 < length (deletedItems example_unpaired)"
    "0 < length (sameItems example_unpaired)"
    "length (newItems example_unpaired) = 1"
    "length (deletedItems example_unpaired) = 1"
    by (simp_all add: example_unpaired_def)
  have items: "newItems example_unpaired ! 0
                 = \<lparr>path = ''out/new.js'', size_f = Fin 200, gzipSize = Fin 80\<rparr>"
    "deletedItems example_unpaired ! 0
       = \<lparr>path = ''out/old.js'', size_f = Fin 200, gzipSize = Fin 80\<rparr>"
    "sameItems example_unpaired ! 0 = \<lparr>path = ''same.js'', size_f = Fin 7, gzipSize = Fin 3\<rparr>"
    by (simp_all add: example_unpaired_def)
  note inst = unpaired_file_records [of 0 example_unpaired "''t''"]
  from inst sizes(1) have "?es ! 0 = \<lparr>entry_p = path (newItems example_unpaired ! 0),
           entry_s = [\<lparr>sym_n = basename (path (newItems example_unpaired ! 0)),
                       sym_b = size_f (newItems example_unpaired ! 0),
                       sym_g = gzipSize (newItems example_unpaired ! 0),
                       sym_t = ''t'', sym_u = Fin 1\<rparr>]\<rparr>"
    by blast
  then have first: "?es ! 0 = \<lparr>entry_p = ''out/new.js'',
        entry_s = [\<lparr>sym_n = ''new.js'', sym_b = Fin 200, sym_g = Fin 80, sym_t = ''t'',
                    sym_u = Fin 1\<rparr>]\<rparr>"
    by (simp add: items basename_examples)
  from inst sizes(2) have
    "?es ! (length (newItems example_unpaired) + 0)
        = \<lparr>entry_p = path (deletedItems example_unpaired ! 0),
           entry_s = [\<lparr>sym_n = basename (path (deletedItems example_unpaired ! 0)),
                       sym_b = js_neg (size_f (deletedItems example_unpaired ! 0)),
                       sym_g = js_neg (gzipSize (deletedItems example_unpaired ! 0)),
                       sym_t = ''t'', sym_u = Fin (- 1)\<rparr>]\<rparr>"
    by blast
  then have second: "?es ! 1 = \<lparr>entry_p = ''out/old.js'',
        entry_s = [\<lparr>sym_n = ''old.js'', sym_b = Fin (- 200), sym_g = Fin (- 80), sym_t = ''t'',
                    sym_u = Fin (- 1)\<rparr>]\<rparr>"
    by (simp add: items sizes basename_examples)
  from inst sizes(3) have
    "?es ! (length (newItems example_unpaired) + length (deletedItems example_unpaired) + 0)
        = \<lparr>entry_p = path (sameItems example_unpaired ! 0),
           entry_s = [\<lparr>sym_n = basename (path (sameItems example_unpaired ! 0)),
                       sym_b = Fin 0, sym_g = Fin 0, sym_t = ''t'', sym_u = Fin 1\<rparr>]\<rparr>"
    by blast
  then have third: "?es ! 2 = \<lparr>entry_p = ''same.js'',
        entry_s = [\<lparr>sym_n = ''same.js'', sym_b = Fin 0, sym_g = Fin 0, sym_t = ''t'',
                    sym_u = Fin 1\<rparr>]\<rparr>"
    by (simp add: items sizes basename_examples numeral_2_eq_2)
  from first second third show ?thesis
    by blast
qed

subsection \<open>The base name\<close>

lemma lastIndexOf_upto_absent:
  assumes "k \<le> length str" and "c \<notin> set (take k str)"
  shows "lastIndexOf_upto str c k = - 1"
  using assms
proof (induction k)
  case 0
  show ?case by simp
next
  case (Suc k)
  from Suc.prems have "k < length str" by simp
  with Suc.prems have "str ! k \<noteq> c" and "c \<notin> set (take k str)"
    by (auto simp: take_Suc_conv_app_nth)
  with Suc.IH \<open>k < length str\<close> show ?case by simp
qed

lemma lastIndexOf_upto_found:
  assumes "c \<notin> set after" and "j \<le> length after"
  shows "lastIndexOf_upto (before @ c # after) c (Suc (length before + j)) = int (length before)"
  using assms(2)
proof (induction j)
  case 0
  show ?case by simp
next
  case (Suc j)
  then have "j < length after" by simp
  then have "(before @ c # after) ! (Suc (length before + j)) = after ! j"
    by (metis add_Suc_right nth_Cons_Suc nth_append_length_plus)
  moreover have "after ! j \<noteq> c"
    using assms(1) \<open>j < length after\<close> by (metis nth_mem)
  ultimately show ?case
    using Suc by simp
qed

lemma basename_no_slash:
  assumes "CHR ''/'' \<notin> set pth"
  shows "basename pth = pth"
proof -
  have "lastIndexOf pth (CHR ''/'') = - 1"
    unfolding lastIndexOf_def using assms by (intro lastIndexOf_upto_absent) simp_all
  then show ?thesis
    by (simp add: basename_def substring_def)
qed

lemma basename_after_last_slash:
  assumes "CHR ''/'' \<notin> set file"
  shows "basename (dir @ CHR ''/'' # file) = file"
proof -
  have "lastIndexOf (dir @ CHR ''/'' # file) (CHR ''/'') = int (length dir)"
    unfolding lastIndexOf_def
    using lastIndexOf_upto_found [OF assms, of "length file" dir] by simp
  moreover have "nat (max 0 (int (length dir) + 1)) = Suc (length dir)"
    by simp
  ultimately show ?thesis
    by (simp add: basename_def substring_def)
qed

lemma entry_shape:
  assumes "e \<in> set (entries (transformChanges t c))"
  shows "\<exists>sym. entry_s e = [sym] \<and> sym_n sym = basename (entry_p e)"
proof -
  from assms consider
      d where "e = new_entry t d"
    | d where "e = deleted_entry t d"
    | d where "e = same_entry t d"
    | pr where "e = changed_entry t pr"
    by (auto simp: transformChanges_def)
  then show ?thesis
  proof cases
    case 1 then show ?thesis by (simp add: new_entry_def)
  next
    case 2 then show ?thesis by (simp add: deleted_entry_def)
  next
    case 3 then show ?thesis by (simp add: same_entry_def)
  next
    case 4 then show ?thesis by (cases pr) (simp add: changed_entry_def)
  qed
qed

text \<open>
  Claim C9. Every record that \<^verbatim>\<open>transformChanges\<close> emits has exactly one symbol in its
  list \<^verbatim>\<open>s\<close>, and the name \<^verbatim>\<open>n\<close> of that symbol is the part of the record's path
  \<^verbatim>\<open>p\<close> after the last \<open>/\<close>: the whole path when the path has no \<open>/\<close>, and \<open>file\<close>
  whenever the path is \<open>dir/file\<close> with no \<open>/\<close> in \<open>file\<close>.
\<close>

theorem record_has_one_symbol_named_by_last_segment:
  assumes "e \<in> set (entries (transformChanges t c))"
  shows "\<exists>sym. entry_s e = [sym]
           \<and> (CHR ''/'' \<notin> set (entry_p e) \<longrightarrow> sym_n sym = entry_p e)
           \<and> (\<forall>dir file. entry_p e = dir @ CHR ''/'' # file \<and> CHR ''/'' \<notin> set file
                 \<longrightarrow> sym_n sym = file)"
proof -
  from entry_shape [OF assms] obtain sym
    where one: "entry_s e = [sym]" and name: "sym_n sym = basename (entry_p e)"
    by blast
  have "CHR ''/'' \<notin> set (entry_p e) \<longrightarrow> sym_n sym = entry_p e"
    using name by (simp add: basename_no_slash)
  moreover have "\<forall>dir file. entry_p e = dir @ CHR ''/'' # file \<and> CHR ''/'' \<notin> set file
                 \<longrightarrow> sym_n sym = file"
    using name by (auto simp: basename_after_last_slash)
  ultimately show ?thesis
    using one by blast
qed

theorem record_has_one_symbol_named_by_last_segment_witness:
  "\<exists>sym. entry_s (new_entry ''t'' \<lparr>path = ''out/new.js'', size_f = Fin 200, gzipSize = Fin 80\<rparr>) = [sym]
      \<and> sym_n sym = ''new.js''"
proof -
  let ?e = "new_entry ''t'' \<lparr>path = ''out/new.js'', size_f = Fin 200, gzipSize = Fin 80\<rparr>"
  have mem: "?e \<in> set (entries (transformChanges ''t'' example_unpaired))"
    by (simp add: transformChanges_def example_unpaired_def)
  from record_has_one_symbol_named_by_last_segment [OF mem] obtain sym
    where one: "entry_s ?e = [sym]"
      and seg: "\<forall>dir file. entry_p ?e = dir @ CHR ''/'' # file \<and> CHR ''/'' \<notin> set file
                 \<longrightarrow> sym_n sym = file"
    by blast
  have "entry_p ?e = ''out'' @ CHR ''/'' # ''new.js'' \<and> CHR ''/'' \<notin> set ''new.js''"
    by (simp add: new_entry_def)
  with seg have "sym_n sym = ''new.js''"
    by blast
  with one show ?thesis
    by blast
qed

text \<open>
  Claim C4. When the CI service answers with fewer than two builds, the generator throws
  before it yields anything: no header and no record. The error is the one the source
  raises for a missing previous build, \<^verbatim>\<open>Error("Couldn't find previous build info")\<close>
  (the not-found error of the specification). The world afterwards is the one left by
  the single call to \<^verbatim>\<open>getBuildInfo\<close>: the call is not repeated and \<^verbatim>\<open>getChanges\<close>
  is not called.
\<close>

theorem fewer_than_two_builds_throws_before_output:
  assumes "getBuildInfo (at_index inp 0) (at_index inp 1) ''master'' 2 w = (Inr builds, w1)"
    and "length builds < 2"
  shows "newlineDelimtedJsonStream t getBuildInfo getChanges inp w
           = \<lparr>yielded = [],
              thrown = Some (Error ''Couldn't find previous build info''),
              world = w1\<rparr>"
  using assms
  by (simp add: newlineDelimtedJsonStream_def Let_def at_index_def)

theorem fewer_than_two_builds_throws_before_output_witness:
  "newlineDelimtedJsonStream ''t'' (example_getBuildInfo [7]) example_getChanges
       (setInput ''owner/repo'') 0
     = \<lparr>yielded = [],
        thrown = Some (Error ''Couldn't find previous build info''),
        world = Suc 0\<rparr>"
proof -
  have builds: "example_getBuildInfo [7] (at_index (setInput ''owner/repo'') 0)
                  (at_index (setInput ''owner/repo'') 1) ''master'' 2 0
                = (Inr [7], Suc 0)"
    by (simp add: example_getBuildInfo_def)
  have few: "length [7 :: nat] < 2"
    by simp
  show ?thesis
    by (rule fewer_than_two_builds_throws_before_output
          [where getBuildInfo = "example_getBuildInfo [7]" and inp = "setInput ''owner/repo''"
             and w = 0 and builds = "[7]" and ?w1.0 = "Suc 0", OF builds few])
qed

section \<open>Properties of the size text\<close>

text \<open>
  Claim C8. The value that \<^verbatim>\<open>getSizeContents\<close> returns is the node's \<^verbatim>\<open>size\<close>, with or
  without the key \<^verbatim>\<open>gzip\<close> in the state: both branches assign \<^verbatim>\<open>node.size\<close>. Two states
  that give the same answer for every key other than \<^verbatim>\<open>gzip\<close> produce the same result,
  and so the same value.
\<close>

theorem getSizeContents_value_is_size_with_or_without_gzip:
  "value_f (getSizeContents fmt filterParams node) = size_n node
   \<and> ((\<forall>key. key \<noteq> ''gzip'' \<longrightarrow> state_get filterParams key = state_get filterParams' key)
        \<longrightarrow> getSizeContents fmt filterParams node = getSizeContents fmt filterParams' node)"
proof (intro conjI impI)
  show "value_f (getSizeContents fmt filterParams node) = size_n node"
    by (simp add: getSizeContents_def Let_def)
next
  assume same: "\<forall>key. key \<noteq> ''gzip'' \<longrightarrow> state_get filterParams key = state_get filterParams' key"
  have "state_get filterParams ''byteunit'' = state_get filterParams' ''byteunit''"
    using same by simp
  then show "getSizeContents fmt filterParams node = getSizeContents fmt filterParams' node"
    by (simp add: getSizeContents_def Let_def)
qed

theorem getSizeContents_value_is_size_with_or_without_gzip_witness:
  "value_f (getSizeContents example_formats [(''gzip'', ''on''), (''byteunit'', ''KiB'')] example_node)
     = Fin 1234
   \<and> getSizeContents example_formats [(''gzip'', ''on''), (''byteunit'', ''KiB'')] example_node
     = getSizeContents example_formats [(''byteunit'', ''KiB'')] example_node"
proof -
  have same: "\<forall>key. key \<noteq> ''gzip'' \<longrightarrow>
      state_get [(''gzip'', ''on''), (''byteunit'', ''KiB'')] key
        = state_get [(''byteunit'', ''KiB'')] key"
    by (simp add: state_get_def)
  have size: "size_n example_node = Fin 1234"
    by (simp add: example_node_def)
  note inst = getSizeContents_value_is_size_with_or_without_gzip
         [of example_formats "[(''gzip'', ''on''), (''byteunit'', ''KiB'')]" example_node
             "[(''byteunit'', ''KiB'')]"]
  from inst have "value_f (getSizeContents example_formats
                     [(''gzip'', ''on''), (''byteunit'', ''KiB'')] example_node) = size_n example_node"
    by (rule conjunct1)
  moreover have "getSizeContents example_formats [(''gzip'', ''on''), (''byteunit'', ''KiB'')] example_node
     = getSizeContents example_formats [(''byteunit'', ''KiB'')] example_node"
    by (rule mp [OF conjunct2 [OF inst] same])
  ultimately show ?thesis
    by (simp only: size simp_thms)
qed

text \<open>
  Claim C10. \<^verbatim>\<open>setSizeClasses\<close> styles the size element exactly when the state has the
  key \<^verbatim>\<open>diff_mode\<close> and the absolute value is greater than 50000. Then a negative value
  leaves the class \<^verbatim>\<open>shrunk\<close> on the element and \<^verbatim>\<open>grew\<close> off it, and any other value
  leaves \<^verbatim>\<open>grew\<close> on and \<^verbatim>\<open>shrunk\<close> off. In every other case both classes are off. The
  other classes of the element stay as they were.
\<close>

theorem setSizeClasses_marks_large_changes_only:
  "(state_has filterParams ''diff_mode'' \<and> js_lt (Fin 50000) (js_abs val) \<and> js_lt val (Fin 0)
      \<longrightarrow> ''shrunk'' \<in> set (setSizeClasses filterParams classList val)
          \<and> ''grew'' \<notin> set (setSizeClasses filterParams classList val))
   \<and> (state_has filterParams ''diff_mode'' \<and> js_lt (Fin 50000) (js_abs val) \<and> \<not> js_lt val (Fin 0)
      \<longrightarrow> ''grew'' \<in> set (setSizeClasses filterParams classList val)
          \<and> ''shrunk'' \<notin> set (setSizeClasses filterParams classList val))
   \<and> (\<not> (state_has filterParams ''diff_mode'' \<and> js_lt (Fin 50000) (js_abs val))
      \<longrightarrow> ''shrunk'' \<notin> set (setSizeClasses filterParams classList val)
          \<and> ''grew'' \<notin> set (setSizeClasses filterParams classList val))
   \<and> (\<forall>token. token \<noteq> ''shrunk'' \<and> token \<noteq> ''grew''
      \<longrightarrow> (token \<in> set (setSizeClasses filterParams classList val) \<longleftrightarrow> token \<in> set classList))"
proof -
  have add: "set (classList_add cl token) = insert token (set cl)" for cl token
    by (auto simp: classList_add_def)
  have remove: "set (classList_remove cl token) = set cl - {token}" for cl token
    by (auto simp: classList_remove_def)
  show ?thesis
    by (auto simp: setSizeClasses_def SIZE_CHANGE_CUTOFF_def Let_def add remove)
qed

theorem setSizeClasses_marks_large_changes_only_witness:
  "setSizeClasses [(''diff_mode'', ''on'')] [''size-info'', ''grew''] (Fin (- 60000))
     = [''size-info'', ''shrunk'']
   \<and> ''shrunk'' \<in> set (setSizeClasses [(''diff_mode'', ''on'')] [''size-info'', ''grew''] (Fin (- 60000)))
   \<and> ''grew'' \<in> set (setSizeClasses [(''diff_mode'', ''on'')] [''size-info''] (Fin 60000))
   \<and> ''grew'' \<notin> set (setSizeClasses [(''diff_mode'', ''on'')] [''size-info'', ''grew''] (Fin 50000))
   \<and> ''grew'' \<notin> set (setSizeClasses [] [''size-info'', ''grew''] (Fin 60000))"
proof -
  have on: "state_has [(''diff_mode'', ''on'')] ''diff_mode''" and off: "\<not> state_has [] ''diff_mode''"
    by (simp_all add: state_has_def)
  have "js_lt (Fin 50000) (js_abs (Fin (- 60000)))" and "js_lt (Fin (- 60000)) (Fin 0)"
    by simp_all
  with on setSizeClasses_marks_large_changes_only
         [of "[(''diff_mode'', ''on'')]" "Fin (- 60000)" "[''size-info'', ''grew'']"]
  have shrunk: "''shrunk'' \<in> set (setSizeClasses [(''diff_mode'', ''on'')] [''size-info'', ''grew'']
                                    (Fin (- 60000)))"
    by blast
  have "js_lt (Fin 50000) (js_abs (Fin 60000))" and "\<not> js_lt (Fin 60000) (Fin 0)"
    by simp_all
  with on setSizeClasses_marks_large_changes_only
         [of "[(''diff_mode'', ''on'')]" "Fin 60000" "[''size-info'']"]
  have grew: "''grew'' \<in> set (setSizeClasses [(''diff_mode'', ''on'')] [''size-info''] (Fin 60000))"
    by blast
  have "\<not> js_lt (Fin 50000) (js_abs (Fin 50000))"
    by simp
  with setSizeClasses_marks_large_changes_only
         [of "[(''diff_mode'', ''on'')]" "Fin 50000" "[''size-info'', ''grew'']"]
  have cutoff: "''grew'' \<notin> set (setSizeClasses [(''diff_mode'', ''on'')] [''size-info'', ''grew'']
                                    (Fin 50000))"
    by blast
  from off setSizeClasses_marks_large_changes_only [of "[]" "Fin 60000" "[''size-info'', ''grew'']"]
  have absolute: "''grew'' \<notin> set (setSizeClasses [] [''size-info'', ''grew''] (Fin 60000))"
    by blast
  have run: "setSizeClasses [(''diff_mode'', ''on'')] [''size-info'', ''grew''] (Fin (- 60000))
               = [''size-info'', ''shrunk'']"
    by (simp add: setSizeClasses_def SIZE_CHANGE_CUTOFF_def state_has_def classList_add_def
          classList_remove_def)
  from run shrunk grew cutoff absolute show ?thesis
    by blast
qed

section \<open>Properties of the container info card\<close>

subsection \<open>Order of numbers\<close>

lemma js_le_trans:
  assumes "js_le x y" and "js_le y z"
  shows "js_le x z"
  using assms by (cases x; cases y; cases z) auto

lemma js_le_refl:
  assumes "x \<noteq> NaN"
  shows "js_le x x"
  using assms by (cases x) auto

lemma angle_value_not_NaN: "angle_value a \<Longrightarrow> a \<noteq> NaN"
  by (cases a) auto

lemma angle_step_finite:
  assumes "0 \<le> r" and "nearest r = r" and "0 < b"
  shows "angle_value (to_double (r + b)) \<and> js_le (Fin r) (to_double (r + b))"
proof -
  from to_double_cases [of "r + b"] show ?thesis
  proof (elim disjE conjE)
    assume eq: "to_double (r + b) = Fin (nearest (r + b))"
    have "nearest r \<le> nearest (r + b)"
      using assms(1,3) by (intro nearest_mono_nonneg) simp_all
    then have "r \<le> nearest (r + b)" by (simp only: assms(2))
    then show ?thesis
      using assms(1) by (auto simp: eq nearest_idem)
  next
    assume "to_double (r + b) = PosInf"
    then show ?thesis by simp
  next
    assume "r + b < 0"
    with assms(1,3) show ?thesis by simp
  qed
qed

lemma angle_step:
  assumes "angle_value a" and "js_lt (Fin 0) arc"
  shows "angle_value (js_add a arc) \<and> js_le a (js_add a arc)"
proof (cases a)
  case a: (Fin r)
  with assms(1) have r: "0 \<le> r" "nearest r = r" by simp_all
  show ?thesis
  proof (cases arc)
    case (Fin b)
    with assms(2) have "0 < b" by simp
    with r show ?thesis
      unfolding a Fin js_add.simps by (rule angle_step_finite)
  next
    case PosInf
    then show ?thesis by (simp add: a)
  next
    case NegInf
    with assms(2) show ?thesis by simp
  next
    case NaN
    with assms(2) show ?thesis by simp
  qed
next
  case PosInf
  with assms(2) show ?thesis by (cases arc) simp_all
next
  case NegInf
  with assms(1) show ?thesis by simp
next
  case NaN
  with assms(1) show ?thesis by simp
qed

subsection \<open>One round of the second loop\<close>

lemma slices_append: "slices (xs @ ys) = slices xs @ slices ys"
  by (induction xs rule: slices.induct) simp_all

lemma breakdown_loop_Cons:
  assumes "breakdown_loop icon_color diffMode totalSize ((ty, stats) # rest) st = Inr st'"
  obtains tb border where
    "updateBreakdownRow (tableBody st) (infoRows ty) (Some stats) (percentage_of stats totalSize)
       = Inr tb"
    and "slices border = []"
    and "breakdown_loop icon_color diffMode totalSize rest
           (if js_lt (Fin 0) (arcLength_of (percentage_of stats totalSize))
            then \<lparr>extraRows = removeAll ty (extraRows st), tableBody = tb,
                  canvas = canvas st
                    @ DrawSlice (angleStart st)
                        (js_add (angleStart st) (arcLength_of (percentage_of stats totalSize)))
                        (icon_color ty) # border,
                  angleStart = js_add (angleStart st) (arcLength_of (percentage_of stats totalSize))\<rparr>
            else \<lparr>extraRows = removeAll ty (extraRows st), tableBody = tb,
                  canvas = canvas st, angleStart = angleStart st\<rparr>) = Inr st'"
proof (cases "updateBreakdownRow (tableBody st) (infoRows ty) (Some stats)
                (percentage_of stats totalSize)")
  case (Inl e)
  with assms show ?thesis by (simp add: Let_def)
next
  case (Inr tb)
  let ?border = "if diffMode
     then [DrawBorder (angleStart st)
             (js_add (angleStart st) (arcLength_of (percentage_of stats totalSize)))
             (if js_lt (Fin 0) (size_s stats) then ''#ea4335'' else ''#34a853'') (Fin 16)]
     else []"
  have "slices ?border = []" by simp
  moreover from assms Inr have "breakdown_loop icon_color diffMode totalSize rest
           (if js_lt (Fin 0) (arcLength_of (percentage_of stats totalSize))
            then \<lparr>extraRows = removeAll ty (extraRows st), tableBody = tb,
                  canvas = canvas st
                    @ DrawSlice (angleStart st)
                        (js_add (angleStart st) (arcLength_of (percentage_of stats totalSize)))
                        (icon_color ty) # ?border,
                  angleStart = js_add (angleStart st) (arcLength_of (percentage_of stats totalSize))\<rparr>
            else \<lparr>extraRows = removeAll ty (extraRows st), tableBody = tb,
                  canvas = canvas st, angleStart = angleStart st\<rparr>) = Inr st'"
    by (cases "js_lt (Fin 0) (arcLength_of (percentage_of stats totalSize))")
       (simp_all add: Let_def split del: if_split)
  ultimately show ?thesis using Inr that by blast
qed

lemma breakdown_loop_slices:
  assumes "breakdown_loop icon_color diffMode totalSize es st = Inr st'"
  shows "slices (canvas st')
           = slices (canvas st)
             @ pie_layout (angleStart st)
                 (map (\<lambda>e. arcLength_of (percentage_of (snd e) totalSize)) es)
         \<and> angleStart st' = last (angleStart st # map snd (pie_layout (angleStart st)
                 (map (\<lambda>e. arcLength_of (percentage_of (snd e) totalSize)) es)))"
  using assms
proof (induction es arbitrary: st)
  case Nil
  then show ?case by simp
next
  case (Cons e es)
  obtain ty stats where e: "e = (ty, stats)" by (cases e)
  from Cons.prems [unfolded e] show ?case
  proof (rule breakdown_loop_Cons)
    fix tb border
    assume border: "slices border = []"
    assume run: "breakdown_loop icon_color diffMode totalSize es
           (if js_lt (Fin 0) (arcLength_of (percentage_of stats totalSize))
            then \<lparr>extraRows = removeAll ty (extraRows st), tableBody = tb,
                  canvas = canvas st
                    @ DrawSlice (angleStart st)
                        (js_add (angleStart st) (arcLength_of (percentage_of stats totalSize)))
                        (icon_color ty) # border,
                  angleStart = js_add (angleStart st) (arcLength_of (percentage_of stats totalSize))\<rparr>
            else \<lparr>extraRows = removeAll ty (extraRows st), tableBody = tb,
                  canvas = canvas st, angleStart = angleStart st\<rparr>) = Inr st'"
    show ?thesis
    proof (cases "js_lt (Fin 0) (arcLength_of (percentage_of stats totalSize))")
      case True
      with run Cons.IH show ?thesis
        by (simp add: e slices_append border)
    next
      case False
      with run Cons.IH show ?thesis
        by (simp add: e)
    qed
  qed
qed

lemma breakdown_loop_reached:
  "\<exists>j \<le> length es.
      slices (canvas (state_reached (breakdown_loop icon_color diffMode totalSize es st)))
        = slices (canvas st)
          @ pie_layout (angleStart st)
              (map (\<lambda>e. arcLength_of (percentage_of (snd e) totalSize)) (take j es))
    \<and> angleStart (state_reached (breakdown_loop icon_color diffMode totalSize es st))
        = last (angleStart st # map snd (pie_layout (angleStart st)
              (map (\<lambda>e. arcLength_of (percentage_of (snd e) totalSize)) (take j es))))
    \<and> ((\<exists>s. breakdown_loop icon_color diffMode totalSize es st = Inr s) \<longrightarrow> j = length es)"
proof (induction es arbitrary: st)
  case Nil
  show ?case by (simp add: state_reached_def)
next
  case (Cons e es)
  obtain ty stats where e: "e = (ty, stats)" by (cases e)
  let ?arc = "arcLength_of (percentage_of stats totalSize)"
  let ?f = "\<lambda>e. arcLength_of (percentage_of (snd e) totalSize)"
  show ?case
  proof (cases "updateBreakdownRow (tableBody st) (infoRows ty) (Some stats)
                  (percentage_of stats totalSize)")
    case (Inl err)
    then have "breakdown_loop icon_color diffMode totalSize (e # es) st
        = Inl (err, st\<lparr>extraRows := removeAll ty (extraRows st)\<rparr>)"
      by (simp add: e Let_def)
    then have "slices (canvas (state_reached (breakdown_loop icon_color diffMode totalSize (e # es) st)))
                 = slices (canvas st) @ pie_layout (angleStart st) (map ?f (take 0 (e # es)))
        \<and> angleStart (state_reached (breakdown_loop icon_color diffMode totalSize (e # es) st))
            = last (angleStart st # map snd (pie_layout (angleStart st) (map ?f (take 0 (e # es)))))
        \<and> ((\<exists>s. breakdown_loop icon_color diffMode totalSize (e # es) st = Inr s)
              \<longrightarrow> 0 = length (e # es))"
      by (simp add: state_reached_def)
    then show ?thesis by blast
  next
    case (Inr tb)
    define border where "border = (if diffMode
       then [DrawBorder (angleStart st) (js_add (angleStart st) ?arc)
               (if js_lt (Fin 0) (size_s stats) then ''#ea4335'' else ''#34a853'') (Fin 16)]
       else [])"
    have border: "slices border = []" by (simp add: border_def)
    define st1 where "st1 = (if js_lt (Fin 0) ?arc
       then \<lparr>extraRows = removeAll ty (extraRows st), tableBody = tb,
             canvas = canvas st @ DrawSlice (angleStart st) (js_add (angleStart st) ?arc)
                                    (icon_color ty) # border,
             angleStart = js_add (angleStart st) ?arc\<rparr>
       else \<lparr>extraRows = removeAll ty (extraRows st), tableBody = tb,
             canvas = canvas st, angleStart = angleStart st\<rparr>)"
    have eq: "breakdown_loop icon_color diffMode totalSize (e # es) st
        = breakdown_loop icon_color diffMode totalSize es st1"
      by (cases "js_lt (Fin 0) ?arc")
         (simp_all add: e Inr Let_def st1_def border_def split del: if_split)
    from Cons.IH [of st1] obtain j where j: "j \<le> length es"
      and sl: "slices (canvas (state_reached (breakdown_loop icon_color diffMode totalSize es st1)))
                 = slices (canvas st1) @ pie_layout (angleStart st1) (map ?f (take j es))"
      and ang: "angleStart (state_reached (breakdown_loop icon_color diffMode totalSize es st1))
                 = last (angleStart st1 # map snd (pie_layout (angleStart st1) (map ?f (take j es))))"
      and full: "(\<exists>s. breakdown_loop icon_color diffMode totalSize es st1 = Inr s) \<longrightarrow> j = length es"
      by blast
    have "slices (canvas st1) @ pie_layout (angleStart st1) (map ?f (take j es))
        = slices (canvas st) @ pie_layout (angleStart st) (map ?f (take (Suc j) (e # es)))"
      by (simp add: st1_def e slices_append border)
    moreover have "last (angleStart st1 # map snd (pie_layout (angleStart st1) (map ?f (take j es))))
        = last (angleStart st # map snd (pie_layout (angleStart st) (map ?f (take (Suc j) (e # es)))))"
      by (simp add: st1_def e)
    ultimately have "slices (canvas (state_reached (breakdown_loop icon_color diffMode totalSize (e # es) st)))
                 = slices (canvas st) @ pie_layout (angleStart st) (map ?f (take (Suc j) (e # es)))
        \<and> angleStart (state_reached (breakdown_loop icon_color diffMode totalSize (e # es) st))
            = last (angleStart st # map snd (pie_layout (angleStart st) (map ?f (take (Suc j) (e # es)))))
        \<and> ((\<exists>s. breakdown_loop icon_color diffMode totalSize (e # es) st = Inr s)
              \<longrightarrow> Suc j = length (e # es))"
      using sl ang full unfolding eq by simp
    moreover have "Suc j \<le> length (e # es)" using j by simp
    ultimately show ?thesis by blast
  qed
qed

subsection \<open>The angles of the layout\<close>

lemma pie_layout_angles:
  assumes "angle_value a"
  shows "sorted_wrt js_le (map fst (pie_layout a arcs) @ [last (a # map snd (pie_layout a arcs))])
       \<and> (\<forall>x \<in> set (map fst (pie_layout a arcs) @ [last (a # map snd (pie_layout a arcs))]).
            js_le a x)
       \<and> (pie_layout a arcs \<noteq> [] \<longrightarrow> fst (hd (pie_layout a arcs)) = a)"
  using assms
proof (induction arcs arbitrary: a)
  case Nil
  then show ?case by (simp add: js_le_refl angle_value_not_NaN)
next
  case (Cons arc arcs)
  show ?case
  proof (cases "js_lt (Fin 0) arc")
    case False
    with Cons.IH [OF Cons.prems] show ?thesis by simp
  next
    case True
    let ?a' = "js_add a arc"
    let ?rest = "map fst (pie_layout ?a' arcs) @ [last (?a' # map snd (pie_layout ?a' arcs))]"
    from angle_step [OF Cons.prems True]
    have a': "angle_value ?a'" and step: "js_le a ?a'" by simp_all
    from Cons.IH [OF a'] have sorted: "sorted_wrt js_le ?rest"
      and above: "\<forall>x \<in> set ?rest. js_le ?a' x" by simp_all
    have "\<forall>x \<in> set ?rest. js_le a x"
      using above step js_le_trans by blast
    moreover have "js_le a a"
      using Cons.prems by (simp add: js_le_refl angle_value_not_NaN)
    moreover have "map fst (pie_layout a (arc # arcs)) @ [last (a # map snd (pie_layout a (arc # arcs)))]
        = a # ?rest"
      using True by simp
    ultimately show ?thesis
      using sorted True by simp
  qed
qed

lemma pie_layout_length: "length (pie_layout a arcs) = length (filter (js_lt (Fin 0)) arcs)"
  by (induction arcs arbitrary: a) simp_all

text \<open>
  Claim C6. For the container whose children are 300 bytes of type \<open>t\<close> and 100 bytes of
  type \<open>r\<close>, the total is 400, the two percentages are exactly \<open>3/4\<close> and \<open>1/4\<close>, the
  first slice runs from 0 to three halves of \<^verbatim>\<open>Math.PI\<close>, the second from there to the
  accumulated angle, and the accumulated angle is exactly \<^verbatim>\<open>2 * Math.PI\<close>: none of these
  operations rounds.
\<close>

theorem container_300_100_percentages_and_full_circle:
  "totalSize_of (sort_entries (childStats example_container)) = Fin 400
   \<and> percentage_of \<lparr>size_s = Fin 300, count_s = Fin 1\<rparr> (Fin 400) = Fin (3 / 4)
   \<and> percentage_of \<lparr>size_s = Fin 100, count_s = Fin 1\<rparr> (Fin 400) = Fin (1 / 4)
   \<and> updateInfocard example_icon_color [] example_container infoRows_keys
       = Inr \<lparr>extraRows = [''b'', ''d'', ''R'', ''x'', ''m'', ''p'', ''P'', ''o''],
              tableBody = [''t'', ''r''],
              canvas = [DrawSlice (Fin 0) (js_mul (Fin (3 / 2)) Math_PI) ''fill-t'',
                        DrawSlice (js_mul (Fin (3 / 2)) Math_PI) (js_mul (Fin 2) Math_PI)
                          ''fill-r''],
              angleStart = js_mul (Fin 2) Math_PI\<rparr>"
proof -
  have "totalSize_of (sort_entries (childStats example_container)) = Fin 400"
    by (simp add: totalSize_of_def sort_entries_def comparefn_def js_sub_def
          example_container_def double_evals)
  moreover have "percentage_of \<lparr>size_s = Fin 300, count_s = Fin 1\<rparr> (Fin 400) = Fin (3 / 4)"
    by (simp add: percentage_of_def double_evals)
  moreover have "percentage_of \<lparr>size_s = Fin 100, count_s = Fin 1\<rparr> (Fin 400) = Fin (1 / 4)"
    by (simp add: percentage_of_def double_evals)
  moreover have "js_mul (Fin (3 / 2)) Math_PI = Fin (2652839157010665 / 562949953421312)"
    by (simp add: Math_PI_def double_evals)
  ultimately show ?thesis
    by (simp only: update_example_container two_pi simp_thms)
qed

subsection \<open>Rational bounds of \<open>\<pi>\<close>\<close>

text \<open>
  The partial sums of the series of the arc tangent enclose it, and Machin's formula
  turns eleven terms at \<open>1/5\<close> and four at \<open>1/239\<close> into a rational number above \<open>2\<pi>\<close>,
  and twelve terms at \<open>1/5\<close> and three at \<open>1/239\<close> into one below \<open>\<pi>\<close> that is above
  \<^verbatim>\<open>Math.PI\<close>.
\<close>

lemma arctan_partial_sums:
  fixes x :: real
  assumes "0 \<le> x" and "x \<le> 1"
  shows "(\<Sum>i<2 * n. (- 1) ^ i * (1 / real (i * 2 + 1) * x ^ (i * 2 + 1))) \<le> arctan x"
    and "arctan x \<le> (\<Sum>i<2 * n + 1. (- 1) ^ i * (1 / real (i * 2 + 1) * x ^ (i * 2 + 1)))"
proof -
  let ?a = "\<lambda>n. 1 / real (n * 2 + 1) * x ^ (n * 2 + 1)"
  have abs: "\<bar>x\<bar> \<le> 1" using assms by simp
  have zero: "?a \<longlonglongrightarrow> 0" using abs by (rule zeroseq_arctan_series)
  have pos: "0 \<le> ?a n" for n using assms(1) by simp
  have mono: "?a (Suc n) \<le> ?a n" for n
  proof -
    have "x ^ (Suc n * 2 + 1) \<le> x ^ (n * 2 + 1)"
      using assms by (intro power_decreasing) simp_all
    moreover have "1 / real (Suc n * 2 + 1) \<le> 1 / real (n * 2 + 1)"
      by (intro divide_left_mono) simp_all
    ultimately show ?thesis
      using assms(1) by (intro mult_mono) simp_all
  qed
  have series: "arctan x = (\<Sum>k. (- 1) ^ k * ?a k)"
    using abs by (rule arctan_series)
  show "(\<Sum>i<2 * n. (- 1) ^ i * ?a i) \<le> arctan x"
    unfolding series by (rule summable_Leibniz'(2) [OF zero pos mono])
  show "arctan x \<le> (\<Sum>i<2 * n + 1. (- 1) ^ i * ?a i)"
    unfolding series by (rule summable_Leibniz'(4) [OF zero pos mono])
qed

lemma two_pi_below:
  "2 * pi < 7074237752028441 / 1125899906842624"
proof -
  have up: "arctan (1 / 5) \<le> (\<Sum>i<2 * 5 + 1. (- 1) ^ i * (1 / real (i * 2 + 1) * (1 / 5) ^ (i * 2 + 1)))"
    by (rule arctan_partial_sums(2)) simp_all
  have low: "(\<Sum>i<2 * 2. (- 1) ^ i * (1 / real (i * 2 + 1) * (1 / 239) ^ (i * 2 + 1))) \<le> arctan (1 / 239)"
    by (rule arctan_partial_sums(1)) simp_all
  have "pi = 16 * arctan (1 / 5) - 4 * arctan (1 / 239)"
    using machin by simp
  also have "\<dots> \<le> 16 * (\<Sum>i<2 * 5 + 1. (- 1) ^ i * (1 / real (i * 2 + 1) * (1 / 5) ^ (i * 2 + 1)))
                  - 4 * (\<Sum>i<2 * 2. (- 1) ^ i * (1 / real (i * 2 + 1) * (1 / 239) ^ (i * 2 + 1)))"
    using up low by linarith
  also have "\<dots> < 7074237752028441 / 2251799813685248"
    by (simp add: lessThan_nat_numeral lessThan_Suc power_divide)
  finally show ?thesis by simp
qed

lemma Math_PI_below:
  "884279719003555 / 281474976710656 < pi"
proof -
  have low: "(\<Sum>i<2 * 6. (- 1) ^ i * (1 / real (i * 2 + 1) * (1 / 5) ^ (i * 2 + 1))) \<le> arctan (1 / 5)"
    by (rule arctan_partial_sums(1)) simp_all
  have up: "arctan (1 / 239) \<le> (\<Sum>i<2 * 1 + 1. (- 1) ^ i * (1 / real (i * 2 + 1) * (1 / 239) ^ (i * 2 + 1)))"
    by (rule arctan_partial_sums(2)) simp_all
  have "884279719003555 / 281474976710656
      < 16 * (\<Sum>i<2 * 6. (- 1) ^ i * (1 / real (i * 2 + 1) * (1 / 5) ^ (i * 2 + 1)))
        - 4 * (\<Sum>i<2 * 1 + 1. (- 1) ^ i * (1 / real (i * 2 + 1) * (1 / 239) ^ (i * 2 + 1)))"
    by (simp add: lessThan_nat_numeral lessThan_Suc power_divide)
  also have "\<dots> \<le> 16 * arctan (1 / 5) - 4 * arctan (1 / 239)"
    using up low by linarith
  also have "\<dots> = pi"
    using machin by simp
  finally show ?thesis .
qed

subsection \<open>The comparison function on binary64 values\<close>

lemma double_multiple:
  assumes "nearest r = r"
  shows "\<exists>k :: int. r = of_int k * 2 powi (- 1074)"
proof -
  define j where "j = nat (ulp_exp r + 1074)"
  have "(2::rat) powi ulp_exp r = 2 powi (int j + (- 1074))"
    using ulp_exp_ge [of r] by (simp add: j_def)
  also have "\<dots> = 2 ^ j * 2 powi (- 1074)"
    by (subst power_int_add) simp_all
  finally have "nearest r = of_int (rne (r / 2 powi ulp_exp r) * 2 ^ j) * 2 powi (- 1074)"
    by (simp add: nearest_def)
  with assms show ?thesis by metis
qed

lemma nearest_smallest: "nearest (2 powi (- 1074)) = 2 powi (- 1074)"
proof -
  have "(2::rat) powi (- 1074) < 2 powi (- 1074 + 53)"
    by (intro power_int_strict_increasing) simp_all
  then have "ulp_exp (2 powi (- 1074)) \<le> - 1074"
    by (intro ulp_exp_bound) simp_all
  then show ?thesis
    by (intro nearest_fixed [of _ 1]) simp_all
qed

lemma nearest_difference_pos:
  assumes "nearest a = a" and "nearest b = b" and "a < b"
  shows "0 < nearest (b - a)"
proof -
  from double_multiple [OF assms(1)] obtain ka :: int where a: "a = of_int ka * 2 powi (- 1074)" ..
  from double_multiple [OF assms(2)] obtain kb :: int where b: "b = of_int kb * 2 powi (- 1074)" ..
  have u: "(0::rat) < 2 powi (- 1074)" by simp
  have "(of_int ka :: rat) < of_int kb"
    using assms(3) u unfolding a b by (simp only: mult_less_cancel_right_pos)
  then have "1 \<le> kb - ka" by simp
  then have "(of_int 1 :: rat) \<le> of_int (kb - ka)" by (simp only: of_int_le_iff)
  then have "1 * 2 powi (- 1074) \<le> (of_int (kb - ka) :: rat) * 2 powi (- 1074)"
    using u by (intro mult_right_mono) simp_all
  also have "\<dots> = b - a"
    by (simp add: a b left_diff_distrib)
  finally have "2 powi (- 1074) \<le> b - a" by simp
  with u have "nearest (2 powi (- 1074)) \<le> nearest (b - a)"
    by (intro nearest_mono_pos)
  with u show ?thesis by (simp only: nearest_smallest)
qed

lemma comparefn_positive_iff:
  assumes "finite_double x" and "finite_double y"
  shows "js_lt (Fin 0) (js_sub y x) \<longleftrightarrow> js_lt x y"
proof -
  from assms obtain a b where x: "x = Fin a" and y: "y = Fin b"
    by (cases x; cases y) simp_all
  from assms have a: "nearest a = a" and b: "nearest b = b"
    by (simp_all add: x y)
  have sub: "js_sub (Fin b) (Fin a) = to_double (b - a)"
    by (simp add: js_sub_def)
  have "js_lt (Fin 0) (to_double (b - a)) \<longleftrightarrow> a < b"
    using to_double_cases [of "b - a"]
  proof (elim disjE conjE)
    assume eq: "to_double (b - a) = Fin (nearest (b - a))"
    show ?thesis
    proof (cases "a < b")
      case True
      with nearest_difference_pos [OF a b] show ?thesis
        by (simp add: eq)
    next
      case False
      then have "nearest (b - a) \<le> 0" by (intro nearest_nonpos) simp
      with False show ?thesis
        by (simp add: eq)
    qed
  next
    assume "to_double (b - a) = PosInf" and "0 < b - a"
    then show ?thesis by simp
  next
    assume "to_double (b - a) = NegInf" and "b - a < 0"
    then show ?thesis by simp
  qed
  then show ?thesis
    by (simp only: x y sub js_lt.simps)
qed

lemma finite_double_total:
  assumes "finite_double x" and "finite_double y" and "\<not> js_lt x y"
  shows "js_le y x"
  using assms by (cases x; cases y) auto

lemma finite_double_iff: "finite_double (Fin r) \<longleftrightarrow> to_double r = Fin r"
  by (auto simp: to_double_def nearest_zero)

subsection \<open>Sorting the entries\<close>

lemma mset_insert_entry: "mset (insert_entry x ys) = add_mset x (mset ys)"
  by (induction ys) simp_all

lemma mset_sort_entries: "mset (sort_entries es) = mset es"
  by (induction es) (simp_all add: sort_entries_def mset_insert_entry)

lemma set_insert_entry: "set (insert_entry x ys) = insert x (set ys)"
  using mset_insert_entry [of x ys] by (metis set_mset_add_mset_insert set_mset_mset)

lemma set_sort_entries: "set (sort_entries es) = set es"
  using mset_sort_entries [of es] by (metis set_mset_mset)

lemma sorted_insert_entry:
  assumes "finite_double (size_s (snd x))"
    and "\<forall>y \<in> set ys. finite_double (size_s (snd y))"
    and "sorted_wrt (\<lambda>a b. js_le (size_s (snd b)) (size_s (snd a))) ys"
  shows "sorted_wrt (\<lambda>a b. js_le (size_s (snd b)) (size_s (snd a))) (insert_entry x ys)"
  using assms(2,3)
proof (induction ys)
  case Nil
  show ?case by simp
next
  case (Cons y ys)
  from Cons.prems have fy: "finite_double (size_s (snd y))" by simp
  show ?case
  proof (cases "js_lt (Fin 0) (comparefn x y)")
    case True
    then have "js_lt (size_s (snd x)) (size_s (snd y))"
      using comparefn_positive_iff [OF assms(1) fy] by (simp add: comparefn_def)
    then have "js_le (size_s (snd x)) (size_s (snd y))"
      by (cases "size_s (snd x)"; cases "size_s (snd y)") simp_all
    with True Cons show ?thesis
      by (auto simp: set_insert_entry)
  next
    case False
    then have "\<not> js_lt (size_s (snd x)) (size_s (snd y))"
      using comparefn_positive_iff [OF assms(1) fy] by (simp add: comparefn_def)
    then have xy: "js_le (size_s (snd y)) (size_s (snd x))"
      using assms(1) fy by (intro finite_double_total)
    have "js_le (size_s (snd z)) (size_s (snd x))" if "z \<in> set ys" for z
    proof -
      from Cons.prems(2) that have "js_le (size_s (snd z)) (size_s (snd y))" by simp
      then show ?thesis using xy by (rule js_le_trans)
    qed
    with False xy Cons.prems show ?thesis by simp
  qed
qed

lemma sorted_sort_entries:
  assumes "\<forall>e \<in> set es. finite_double (size_s (snd e))"
  shows "sorted_wrt (\<lambda>a b. js_le (size_s (snd b)) (size_s (snd a))) (sort_entries es)"
  using assms
proof (induction es)
  case Nil
  show ?case by (simp add: sort_entries_def)
next
  case (Cons e es)
  then have "sorted_wrt (\<lambda>a b. js_le (size_s (snd b)) (size_s (snd a))) (sort_entries es)"
    by simp
  moreover have "\<forall>y \<in> set (sort_entries es). finite_double (size_s (snd y))"
    using Cons.prems by (simp add: set_sort_entries)
  moreover have "finite_double (size_s (snd e))"
    using Cons.prems by simp
  ultimately have "sorted_wrt (\<lambda>a b. js_le (size_s (snd b)) (size_s (snd a)))
                     (insert_entry e (sort_entries es))"
    by (intro sorted_insert_entry)
  then show ?case by (simp add: sort_entries_def)
qed

subsection \<open>The arcs of whole sizes\<close>

lemma sum_list_sort_entries:
  fixes h :: "string \<times> Stats \<Rightarrow> 'b::comm_monoid_add"
  shows "(\<Sum>e\<leftarrow>sort_entries es. h e) = (\<Sum>e\<leftarrow>es. h e)"
proof -
  have "mset (map h (sort_entries es)) = mset (map h es)"
    by (simp only: mset_map mset_sort_entries)
  then have "sum_mset (mset (map h (sort_entries es))) = sum_mset (mset (map h es))"
    by (rule arg_cong)
  then show ?thesis by (simp only: sum_mset_sum_list)
qed

lemma sum_list_take_le:
  fixes h :: "'a \<Rightarrow> 'b::linordered_idom"
  assumes "\<forall>e \<in> set es. 0 \<le> h e"
  shows "(\<Sum>e\<leftarrow>take j es. h e) \<le> (\<Sum>e\<leftarrow>es. h e)"
proof -
  have "(\<Sum>e\<leftarrow>take j es @ drop j es. h e) = (\<Sum>e\<leftarrow>take j es. h e) + (\<Sum>e\<leftarrow>drop j es. h e)"
    by (simp only: map_append sum_list_append)
  moreover have "0 \<le> (\<Sum>e\<leftarrow>drop j es. h e)"
    using assms by (intro sum_list_nonneg) (auto dest: in_set_dropD)
  ultimately show ?thesis by simp
qed

lemma member_le_sum_list_abs:
  fixes h :: "'a \<Rightarrow> int"
  assumes "e \<in> set es"
  shows "\<bar>h e\<bar> \<le> (\<Sum>e\<leftarrow>es. \<bar>h e\<bar>)"
  using assms
proof (induction es)
  case Nil
  then show ?case by simp
next
  case (Cons x xs)
  have "0 \<le> (\<Sum>e\<leftarrow>xs. \<bar>h e\<bar>)" by (intro sum_list_nonneg) auto
  with Cons show ?case by auto
qed

lemma count_le_sum_list_abs:
  fixes h :: "'a \<Rightarrow> int"
  assumes "\<forall>e \<in> set es. P e \<longrightarrow> h e \<noteq> 0"
  shows "int (length (filter P es)) \<le> (\<Sum>e\<leftarrow>es. \<bar>h e\<bar>)"
  using assms
proof (induction es)
  case Nil
  then show ?case by simp
next
  case (Cons x xs)
  then have IH: "int (length (filter P xs)) \<le> (\<Sum>e\<leftarrow>xs. \<bar>h e\<bar>)" by simp
  show ?case
  proof (cases "P x")
    case True
    with Cons.prems have "h x \<noteq> 0" by simp
    then have "1 \<le> \<bar>h x\<bar>" by linarith
    with IH True show ?thesis by simp
  next
    case False
    with IH show ?thesis by simp
  qed
qed

lemma sum_list_scaled:
  fixes c :: rat and h :: "'a \<Rightarrow> int"
  shows "(\<Sum>e\<leftarrow>es. c * of_int (h e)) = c * of_int (\<Sum>e\<leftarrow>es. h e)"
  by (induction es) (simp_all add: algebra_simps)

lemma fold_whole_sizes:
  assumes "\<forall>e \<in> set es. whole_number (size_s (snd e))" and "0 \<le> a"
    and "a + (\<Sum>e\<leftarrow>es. \<bar>bytes_of (size_s (snd e))\<bar>) < 2 ^ 53"
  shows "fold (\<lambda>e acc. js_add acc (js_abs (size_s (snd e)))) es (Fin (of_int a))
           = Fin (of_int (a + (\<Sum>e\<leftarrow>es. \<bar>bytes_of (size_s (snd e))\<bar>)))"
  using assms
proof (induction es arbitrary: a)
  case Nil
  show ?case by simp
next
  case (Cons e es)
  define k where "k = bytes_of (size_s (snd e))"
  from Cons.prems(1) have size: "size_s (snd e) = Fin (of_int k)"
    by (simp add: whole_number_def k_def)
  have rest: "0 \<le> (\<Sum>e\<leftarrow>es. \<bar>bytes_of (size_s (snd e))\<bar>)"
    by (rule sum_list_nonneg) auto
  have "\<bar>a + \<bar>k\<bar>\<bar> < 2 ^ 53"
    using Cons.prems(2,3) rest by (simp add: k_def)
  then have "to_double (of_int (a + \<bar>k\<bar>)) = Fin (of_int (a + \<bar>k\<bar>))"
    by (rule to_double_int)
  then have step: "js_add (Fin (of_int a)) (js_abs (size_s (snd e))) = Fin (of_int (a + \<bar>k\<bar>))"
    by (simp add: size)
  have "fold (\<lambda>e acc. js_add acc (js_abs (size_s (snd e)))) es (Fin (of_int (a + \<bar>k\<bar>)))
      = Fin (of_int (a + \<bar>k\<bar> + (\<Sum>e\<leftarrow>es. \<bar>bytes_of (size_s (snd e))\<bar>)))"
    using Cons.prems by (intro Cons.IH) (simp_all add: k_def)
  then show ?case
    by (simp add: step k_def add.assoc)
qed

lemma totalSize_whole:
  assumes "\<forall>e \<in> set es. whole_number (size_s (snd e))"
    and "(\<Sum>e\<leftarrow>es. \<bar>bytes_of (size_s (snd e))\<bar>) < 2 ^ 53"
  shows "totalSize_of es = Fin (of_int (\<Sum>e\<leftarrow>es. \<bar>bytes_of (size_s (snd e))\<bar>))"
  using fold_whole_sizes [OF assms(1), of 0] assms(2)
  by (simp add: totalSize_of_def)

lemma arcLength_zero:
  assumes "size_s stats = Fin 0" and "S \<noteq> 0"
  shows "arcLength_of (percentage_of stats (Fin S)) = Fin 0"
  using assms by (simp add: arcLength_of_def percentage_of_def Math_PI_def to_double_zero)

lemma arcLength_whole:
  assumes size: "size_s stats = Fin (of_int k)" and k: "k \<noteq> 0" "\<bar>k\<bar> \<le> S" and S: "S < 2 ^ 53"
  shows "\<exists>a. arcLength_of (percentage_of stats (Fin (of_int S))) = Fin a
             \<and> 2 powi (- 1022) \<le> a
             \<and> a \<le> 2 * (884279719003555 / 281474976710656) * (of_int \<bar>k\<bar> / of_int S)
                      * (1 + 2 powi (- 53)) ^ 3"
proof -
  define u :: rat where "u = 2 powi (- 53)"
  define M :: rat where "M = 2 ^ 1024"
  define t :: rat where "t = 2 powi (- 1022)"
  define p :: rat where "p = 884279719003555 / 281474976710656"
  define x :: rat where "x = of_int \<bar>k\<bar> / of_int S"
  note normal = to_double_normal [folded u_def M_def t_def]
  have small: "y < M" if "y \<le> 64" for y
  proof -
    have "y \<le> 2 ^ 60" using that by simp
    then show ?thesis unfolding M_def by (rule below_overflow)
  qed
  have u: "0 \<le> u" "1 + u \<le> 2" by (simp_all add: u_def)
  have t: "0 \<le> t" by (simp add: t_def)
  have p: "1 \<le> p" "p \<le> 4" by (simp_all add: p_def)
  from k have Spos: "0 < S" by linarith
  have "1 \<le> \<bar>k\<bar>" using k(1) by linarith
  then have "(of_int 1 :: rat) \<le> of_int \<bar>k\<bar>" by (simp only: of_int_le_iff)
  then have k1: "(1::rat) \<le> of_int \<bar>k\<bar>" by (simp only: of_int_1)
  have "(of_int \<bar>k\<bar> :: rat) \<le> of_int S" using k(2) by (simp only: of_int_le_iff)
  then have x1: "x \<le> 1"
    unfolding x_def using Spos by (simp add: divide_le_eq)
  have "(of_int S :: rat) \<le> of_int (2 ^ 53)"
    using S by (simp only: of_int_le_iff)
  then have S53: "(of_int S :: rat) \<le> 2 ^ 53" by simp
  have "t \<le> 2 powi (- 53)"
    unfolding t_def by (rule power_int_increasing) simp_all
  also have "\<dots> = 1 / 2 ^ 53"
    by (simp add: power_int_minus field_simps)
  also have "\<dots> \<le> 1 / of_int S"
    using S53 Spos by (intro divide_left_mono) simp_all
  also have "\<dots> \<le> x"
    unfolding x_def using k1 Spos by (intro divide_right_mono) simp_all
  finally have x0: "t \<le> x" .
  have xpos: "0 \<le> x" using t x0 by (rule order_trans)
  have "\<bar>(of_int k :: rat) / of_int S\<bar> = x"
    using Spos by (simp add: x_def)
  then have perc: "js_abs (percentage_of stats (Fin (of_int S))) = to_double x"
    using Spos by (simp add: percentage_of_def size js_abs_to_double)
  have xu: "x * (1 + u) \<le> 1 * 2"
    using x1 u xpos by (intro mult_mono) simp_all
  then have "x * (1 + u) < M" by (intro small) simp
  from normal [OF x0 this]
  obtain P where P: "to_double x = Fin P" "t \<le> P" "P \<le> x * (1 + u)"
    by blast
  have Ppos: "0 \<le> P" using t P(2) by (rule order_trans)
  have P2: "P \<le> 2" using P(3) xu by simp
  have P0: "t \<le> P * 2" using P(2) Ppos by linarith
  have Pu: "P * 2 * (1 + u) \<le> 2 * 2 * 2"
    using P2 Ppos u by (intro mult_mono) simp_all
  then have "P * 2 * (1 + u) < M" by (intro small) simp
  from normal [OF P0 this]
  obtain D where D: "to_double (P * 2) = Fin D" "t \<le> D" "D \<le> P * 2 * (1 + u)"
    by blast
  have Dpos: "0 \<le> D" using t D(2) by (rule order_trans)
  have D8: "D \<le> 2 * 2 * 2" using D(3) Pu by simp
  have "t * 1 \<le> D * p"
    using D(2) p(1) t by (intro mult_mono) simp_all
  then have D0: "t \<le> D * p" by simp
  have "D * p * (1 + u) \<le> (2 * 2 * 2) * 4 * 2"
    using D8 Dpos p u by (intro mult_mono) simp_all
  then have "D * p * (1 + u) < M" by (intro small) simp
  from normal [OF D0 this]
  obtain a where a: "to_double (D * p) = Fin a" "t \<le> a" "a \<le> D * p * (1 + u)"
    by blast
  have "arcLength_of (percentage_of stats (Fin (of_int S))) = Fin a"
    unfolding arcLength_of_def perc P(1) js_mul.simps D(1) Math_PI_def p_def [symmetric] a(1) ..
  moreover have "D * p * (1 + u) \<le> (P * 2 * (1 + u)) * p * (1 + u)"
    using D(3) p u by (intro mult_right_mono) simp_all
  moreover have "(P * 2 * (1 + u)) * p * (1 + u) \<le> (x * (1 + u) * 2 * (1 + u)) * p * (1 + u)"
    using P(3) p u by (intro mult_right_mono) simp_all
  moreover have "(x * (1 + u) * 2 * (1 + u)) * p * (1 + u) = 2 * p * x * (1 + u) ^ 3"
    by (simp add: power3_eq_cube mult_ac)
  ultimately have "arcLength_of (percentage_of stats (Fin (of_int S))) = Fin a
      \<and> t \<le> a \<and> a \<le> 2 * p * x * (1 + u) ^ 3"
    using a(2,3) by simp
  then show ?thesis
    unfolding u_def p_def x_def t_def by blast
qed

subsection \<open>The accumulated angle within the rounding of its operations\<close>

lemma pie_layout_tolerance_step:
  fixes g :: "'a \<Rightarrow> rat" and u M t :: rat
  defines "u \<equiv> 2 powi (- 53)" and "M \<equiv> 2 ^ 1024" and "t \<equiv> 2 powi (- 1022)"
  assumes arcs: "\<forall>e \<in> set es. js_lt (Fin 0) (f e) \<longrightarrow> (\<exists>b. f e = Fin b \<and> t \<le> b \<and> b \<le> g e)"
    and g: "\<forall>e \<in> set es. 0 \<le> g e"
    and r: "0 \<le> r"
    and room: "(r + (\<Sum>e\<leftarrow>es. g e)) * (1 + u) ^ length (filter (\<lambda>e. js_lt (Fin 0) (f e)) es) < M"
  shows "\<exists>r'. last (Fin r # map snd (pie_layout (Fin r) (map f es))) = Fin r' \<and> 0 \<le> r'
               \<and> r' \<le> (r + (\<Sum>e\<leftarrow>es. g e))
                        * (1 + u) ^ length (filter (\<lambda>e. js_lt (Fin 0) (f e)) es)"
  using arcs g r room
proof (induction es arbitrary: r)
  case Nil
  then show ?case by simp
next
  case (Cons e es)
  note normal = to_double_normal [folded u_def M_def t_def]
  have u: "0 \<le> u" "1 \<le> 1 + u" by (simp_all add: u_def)
  have t: "0 \<le> t" by (simp add: t_def)
  have rest: "0 \<le> (\<Sum>e\<leftarrow>es. g e)"
    using Cons.prems(2) by (intro sum_list_nonneg) auto
  have ge: "0 \<le> g e" using Cons.prems(2) by simp
  let ?n = "length (filter (\<lambda>e. js_lt (Fin 0) (f e)) es)"
  let ?G = "\<Sum>e\<leftarrow>es. g e"
  have arcs': "\<forall>e \<in> set es. js_lt (Fin 0) (f e) \<longrightarrow> (\<exists>b. f e = Fin b \<and> t \<le> b \<and> b \<le> g e)"
    and g': "\<forall>e \<in> set es. 0 \<le> g e"
    using Cons.prems(1,2) by simp_all
  show ?case
  proof (cases "js_lt (Fin 0) (f e)")
    case False
    have mono: "(r + ?G) * (1 + u) ^ ?n \<le> (r + (g e + ?G)) * (1 + u) ^ ?n"
      using ge u by (intro mult_right_mono) simp_all
    from Cons.prems(4) False have "(r + (g e + ?G)) * (1 + u) ^ ?n < M" by simp
    with mono have "(r + ?G) * (1 + u) ^ ?n < M" by (rule le_less_trans)
    from Cons.IH [OF arcs' g' Cons.prems(3) this] obtain r' where
      r': "last (Fin r # map snd (pie_layout (Fin r) (map f es))) = Fin r'" "0 \<le> r'"
          "r' \<le> (r + ?G) * (1 + u) ^ ?n"
      by blast
    from r'(3) mono have "r' \<le> (r + (g e + ?G)) * (1 + u) ^ ?n"
      by (rule order_trans)
    with r'(1,2) False show ?thesis by simp
  next
    case True
    with Cons.prems(1) obtain b where
      b: "f e = Fin b" "t \<le> b" "b \<le> g e" by auto
    have room: "(r + (g e + ?G)) * ((1 + u) * (1 + u) ^ ?n) < M"
      using Cons.prems(4) True by simp
    have sum: "r + b \<le> r + (g e + ?G)"
      using b(3) rest by simp
    have "1 \<le> (1 + u) ^ ?n" using u by (intro one_le_power) simp
    then have pow: "(1 + u) * 1 \<le> (1 + u) * (1 + u) ^ ?n"
      using u by (intro mult_left_mono) simp_all
    have bpos: "0 \<le> b" using t b(2) by (rule order_trans)
    have "(r + b) * ((1 + u) * 1) \<le> (r + (g e + ?G)) * ((1 + u) * (1 + u) ^ ?n)"
      using sum pow Cons.prems(3) bpos u by (intro mult_mono) simp_all
    then have "(r + b) * (1 + u) < M"
      using room by simp
    moreover have "t \<le> r + b"
      using b(2) Cons.prems(3) by linarith
    ultimately obtain r1 where r1: "to_double (r + b) = Fin r1" "t \<le> r1"
        "r1 \<le> (r + b) * (1 + u)"
      using normal [of "r + b"] by blast
    have r1pos: "0 \<le> r1" using t r1(2) by (rule order_trans)
    have step: "(r1 + ?G) * (1 + u) ^ ?n \<le> (r + (g e + ?G)) * ((1 + u) * (1 + u) ^ ?n)"
    proof -
      have "?G * 1 \<le> ?G * (1 + u)"
        using rest u by (intro mult_left_mono) simp_all
      with r1(3) have "r1 + ?G \<le> (r + b) * (1 + u) + ?G * (1 + u)"
        by simp
      also have "\<dots> = (r + b + ?G) * (1 + u)"
        by (simp add: algebra_simps)
      also have "\<dots> \<le> (r + (g e + ?G)) * (1 + u)"
        using b(3) u by (intro mult_right_mono) simp_all
      finally have "(r1 + ?G) * (1 + u) ^ ?n \<le> ((r + (g e + ?G)) * (1 + u)) * (1 + u) ^ ?n"
        using u by (intro mult_right_mono) simp_all
      then show ?thesis by (simp only: mult.assoc)
    qed
    from step room have "(r1 + ?G) * (1 + u) ^ ?n < M" by (rule le_less_trans)
    from Cons.IH [OF arcs' g' r1pos this] obtain r' where
      r': "last (Fin r1 # map snd (pie_layout (Fin r1) (map f es))) = Fin r'" "0 \<le> r'"
          "r' \<le> (r1 + ?G) * (1 + u) ^ ?n"
      by blast
    from r'(3) step have "r' \<le> (r + (g e + ?G)) * ((1 + u) * (1 + u) ^ ?n)"
      by (rule order_trans)
    moreover have "last (Fin r # map snd (pie_layout (Fin r) (map f (e # es)))) = Fin r'"
      using True r'(1) by (simp add: b(1) r1(1))
    ultimately show ?thesis
      using r'(2) True by simp
  qed
qed

lemma accumulated_angle_tolerance:
  fixes es :: "(string \<times> Stats) list"
  defines "S \<equiv> (\<Sum>e\<leftarrow>es. \<bar>bytes_of (size_s (snd e))\<bar>)"
  assumes whole: "\<forall>e \<in> set es. whole_number (size_s (snd e))"
    and S53: "S < 2 ^ 53"
  shows "\<exists>r. last (Fin 0 # map snd (pie_layout (Fin 0)
                 (map (\<lambda>e. arcLength_of (percentage_of (snd e) (Fin (of_int S)))) (take j es))))
               = Fin r
             \<and> 0 \<le> r
             \<and> r \<le> 2 * (884279719003555 / 281474976710656)
                      * (1 + 2 powi (- 53))
                        ^ (length (pie_layout (Fin 0)
                             (map (\<lambda>e. arcLength_of (percentage_of (snd e) (Fin (of_int S))))
                                (take j es))) + 3)"
proof -
  define k where "k = (\<lambda>e :: string \<times> Stats. bytes_of (size_s (snd e)))"
  define u :: rat where "u = 2 powi (- 53)"
  define M :: rat where "M = 2 ^ 1024"
  define t :: rat where "t = 2 powi (- 1022)"
  define p :: rat where "p = 884279719003555 / 281474976710656"
  define f where "f = (\<lambda>e :: string \<times> Stats. arcLength_of (percentage_of (snd e) (Fin (of_int S))))"
  define g where "g = (\<lambda>e. 2 * p * (of_int \<bar>k e\<bar> / of_int S) * (1 + u) ^ 3)"
  define n where "n = length (filter (\<lambda>e. js_lt (Fin 0) (f e)) (take j es))"
  have S: "S = (\<Sum>e\<leftarrow>es. \<bar>k e\<bar>)" by (simp add: S_def k_def)
  have S0: "0 \<le> S" unfolding S by (intro sum_list_nonneg) auto
  have u: "0 \<le> u" "1 + u \<le> 2" by (simp_all add: u_def)
  have p: "0 \<le> p" "p \<le> 4" by (simp_all add: p_def)
  have size: "size_s (snd e) = Fin (of_int (k e))" if "e \<in> set es" for e
    using whole that unfolding whole_number_def k_def by blast
  have nonzero: "k e \<noteq> 0" if mem: "e \<in> set es" and pos: "js_lt (Fin 0) (f e)" for e
  proof
    assume "k e = 0"
    with size [OF mem] have z: "size_s (snd e) = Fin 0" by simp
    show False
    proof (cases "S = 0")
      case True
      with pos show False
        by (simp add: f_def z percentage_of_def arcLength_of_def)
    next
      case False
      then have "(of_int S :: rat) \<noteq> 0" by simp
      from arcLength_zero [OF z this] pos show False
        by (simp add: f_def)
    qed
  qed
  have arcs: "\<forall>e \<in> set (take j es). js_lt (Fin 0) (f e)
                \<longrightarrow> (\<exists>b. f e = Fin b \<and> 2 powi (- 1022) \<le> b \<and> b \<le> g e)"
  proof (intro ballI impI)
    fix e
    assume "e \<in> set (take j es)" and pos: "js_lt (Fin 0) (f e)"
    then have mem: "e \<in> set es" by (auto dest: in_set_takeD)
    have "\<bar>k e\<bar> \<le> S"
      unfolding S using mem by (rule member_le_sum_list_abs)
    from arcLength_whole [OF size [OF mem] nonzero [OF mem pos] this S53]
    show "\<exists>b. f e = Fin b \<and> 2 powi (- 1022) \<le> b \<and> b \<le> g e"
      unfolding f_def g_def u_def p_def .
  qed
  have g0: "0 \<le> g e" for e
    unfolding g_def using S0 u p
    by (intro mult_nonneg_nonneg divide_nonneg_nonneg zero_le_power) simp_all
  have "g e = (2 * p * (1 + u) ^ 3 / of_int S) * of_int \<bar>k e\<bar>" for e
    by (simp add: g_def)
  then have "(\<Sum>e\<leftarrow>es. g e) = (2 * p * (1 + u) ^ 3 / of_int S) * of_int S"
    by (simp only: sum_list_scaled S)
  also have "\<dots> \<le> 2 * p * (1 + u) ^ 3"
    using p u by (cases "S = 0") simp_all
  finally have all: "(\<Sum>e\<leftarrow>es. g e) \<le> 2 * p * (1 + u) ^ 3" .
  have "(\<Sum>e\<leftarrow>take j es. g e) \<le> (\<Sum>e\<leftarrow>es. g e)"
    using g0 by (intro sum_list_take_le) simp
  then have part: "(\<Sum>e\<leftarrow>take j es. g e) \<le> 2 * p * (1 + u) ^ 3"
    using all by (rule order_trans)
  have part0: "0 \<le> (\<Sum>e\<leftarrow>take j es. g e)"
    using g0 by (intro sum_list_nonneg) auto
  have "int n \<le> (\<Sum>e\<leftarrow>take j es. \<bar>k e\<bar>)"
    unfolding n_def using nonzero by (intro count_le_sum_list_abs) (auto dest: in_set_takeD)
  also have "\<dots> \<le> S"
    unfolding S by (rule sum_list_take_le) simp
  also note S53
  finally have "int n < int (2 ^ 53)" by simp
  then have "n < 2 ^ 53" by (simp only: of_nat_less_iff)
  then have pow: "(1 + u) ^ n \<le> 2 ^ 53"
    unfolding u_def by (rule pow_ulp_bound)
  have pow0: "0 \<le> (1 + u) ^ n" using u by simp
  have "(1 + u) ^ 3 \<le> 2 ^ 3"
    using u by (intro power_mono) simp_all
  then have "2 * p * (1 + u) ^ 3 \<le> 2 * 4 * 2 ^ 3"
    using p u by (intro mult_mono) simp_all
  with part have "(\<Sum>e\<leftarrow>take j es. g e) \<le> 2 * 4 * 2 ^ 3"
    by (rule order_trans)
  then have "(\<Sum>e\<leftarrow>take j es. g e) * (1 + u) ^ n \<le> (2 * 4 * 2 ^ 3) * 2 ^ 53"
    using pow pow0 part0 by (intro mult_mono) simp_all
  also have "\<dots> \<le> 2 ^ 60" by simp
  finally have "(\<Sum>e\<leftarrow>take j es. g e) * (1 + u) ^ n < 2 ^ 1024"
    by (rule below_overflow)
  then have room: "(0 + (\<Sum>e\<leftarrow>take j es. g e))
      * (1 + 2 powi (- 53)) ^ length (filter (\<lambda>e. js_lt (Fin 0) (f e)) (take j es)) < 2 ^ 1024"
    unfolding u_def n_def by simp
  have g0': "\<forall>e \<in> set (take j es). 0 \<le> g e" using g0 by simp
  from pie_layout_tolerance_step [where es = "take j es" and f = f and g = g and r = 0,
      OF arcs g0' order_refl room]
  obtain r where r: "last (Fin 0 # map snd (pie_layout (Fin 0) (map f (take j es)))) = Fin r"
      "0 \<le> r" "r \<le> (0 + (\<Sum>e\<leftarrow>take j es. g e)) * (1 + u) ^ n"
    unfolding u_def n_def by blast
  have "(0 + (\<Sum>e\<leftarrow>take j es. g e)) * (1 + u) ^ n \<le> (2 * p * (1 + u) ^ 3) * (1 + u) ^ n"
    using part pow0 by (intro mult_right_mono) simp_all
  also have "\<dots> = 2 * p * (1 + u) ^ (n + 3)"
    by (simp add: power_add mult_ac)
  finally have "(0 + (\<Sum>e\<leftarrow>take j es. g e)) * (1 + u) ^ n \<le> 2 * p * (1 + u) ^ (n + 3)" .
  with r(3) have "r \<le> 2 * p * (1 + u) ^ (n + 3)" by (rule order_trans)
  moreover have "length (pie_layout (Fin 0) (map f (take j es))) = n"
    by (simp add: pie_layout_length filter_map o_def n_def)
  ultimately have "last (Fin 0 # map snd (pie_layout (Fin 0) (map f (take j es)))) = Fin r
      \<and> 0 \<le> r
      \<and> r \<le> 2 * p * (1 + u) ^ (length (pie_layout (Fin 0) (map f (take j es))) + 3)"
    using r(1,2) by simp
  then show ?thesis
    unfolding f_def p_def u_def by blast
qed

text \<open>
  Claim C7 does not hold as stated: the accumulated angle is a sum of rounded binary64
  values and can pass \<^verbatim>\<open>2 * Math.PI\<close>. For the container with 9 and 2 bytes the two arcs
  are the rounded values of \<open>9/11\<close> and \<open>2/11\<close> of the circle, and their rounded sum is
  one unit in the last place above \<^verbatim>\<open>2 * Math.PI\<close>; it is above the real number \<open>2\<pi>\<close>
  as well.
\<close>

theorem accumulated_angle_exceeds_two_pi_counterexample:
  "updateInfocard example_icon_color [] example_uneven infoRows_keys
     = Inr \<lparr>extraRows = [''b'', ''d'', ''R'', ''x'', ''m'', ''p'', ''P'', ''o''],
            tableBody = [''t'', ''r''],
            canvas = [DrawSlice (Fin 0) (Fin (180875397068909 / 35184372088832)) ''fill-t'',
                      DrawSlice (Fin (180875397068909 / 35184372088832))
                        (Fin (7074237752028441 / 1125899906842624)) ''fill-r''],
            angleStart = Fin (7074237752028441 / 1125899906842624)\<rparr>
   \<and> js_mul (Fin 2) Math_PI = Fin (7074237752028440 / 1125899906842624)
   \<and> js_lt (js_mul (Fin 2) Math_PI) (Fin (7074237752028441 / 1125899906842624))
   \<and> \<not> js_le (Fin (7074237752028441 / 1125899906842624)) (js_mul (Fin 2) Math_PI)
   \<and> 2 * pi < real_of_rat (7074237752028441 / 1125899906842624)"
proof -
  have "2 * pi < real_of_rat (7074237752028441 / 1125899906842624)"
    using two_pi_below by (simp add: of_rat_divide)
  then show ?thesis
    by (simp add: update_example_uneven two_pi)
qed

text \<open>
  Claim C7 as amended. An update of the container info card ends by completing or by a
  \<^verbatim>\<open>TypeError\<close> of a row update; \<open>st\<close> is the state in which it ends, and the arcs are the
  values of \<^verbatim>\<open>arcLength\<close> for the sorted entries, each the binary64 value of
  \<^verbatim>\<open>Math.abs(size / totalSize) * 2 * Math.PI\<close>. Then:

  \<^item> the slices drawn are the layout, from the angle 0, of the first \<open>j\<close> arcs for some
    \<open>j\<close>, and of all the arcs when the update completes: a slice starts at the accumulated
    angle and ends at the binary64 sum of that angle and its arc, which is the next
    accumulated angle, and an arc that is not positive draws nothing;
  \<^item> the accumulated angle at the end is the end angle of the last slice, or 0 when no
    slice is drawn;
  \<^item> the first slice starts at 0;
  \<^item> the start angles of the slices in the order they are drawn, followed by the
    accumulated angle at the end, never decrease;
  \<^item> if every size is a whole number and the absolute sizes add up to less than \<open>2^53\<close>,
    then \<^verbatim>\<open>totalSize\<close> is exactly that sum, and the accumulated angle at the end is a
    finite number between 0 and \<open>2 * Math.PI * (1 + 2^-53)^(n + 3)\<close>, hence at most
    \<open>2\<pi> * (1 + 2^-53)^(n + 3)\<close>, where \<open>n\<close> is the number of slices drawn: the
    accumulated angle stays within the rounding of its operations of one full circle
    (three roundings for an arc, one for each addition), but it is not clamped to the
    full circle, and the counterexample above shows that it can end above it.
\<close>

theorem angles_from_zero_never_decrease_and_end_within_rounding_of_full_circle:
  assumes st: "st = state_reached (updateInfocard icon_color filterParams containerNode tableBody0)"
    and entries: "statsEntries = sort_entries (childStats containerNode)"
    and arcs: "arcs = map (\<lambda>e. arcLength_of (percentage_of (snd e) (totalSize_of statsEntries)))
                        statsEntries"
  shows "(\<exists>j \<le> length arcs.
            slices (canvas st) = pie_layout (Fin 0) (take j arcs)
          \<and> ((\<exists>s. updateInfocard icon_color filterParams containerNode tableBody0 = Inr s)
                \<longrightarrow> j = length arcs))
       \<and> angleStart st = last (Fin 0 # map snd (slices (canvas st)))
       \<and> (slices (canvas st) \<noteq> [] \<longrightarrow> fst (hd (slices (canvas st))) = Fin 0)
       \<and> sorted_wrt js_le (map fst (slices (canvas st)) @ [angleStart st])
       \<and> ((\<forall>e \<in> set (childStats containerNode). whole_number (size_s (snd e)))
            \<and> (\<Sum>e\<leftarrow>childStats containerNode. \<bar>bytes_of (size_s (snd e))\<bar>) < 2 ^ 53
          \<longrightarrow> totalSize_of statsEntries
                = Fin (of_int (\<Sum>e\<leftarrow>childStats containerNode. \<bar>bytes_of (size_s (snd e))\<bar>))
            \<and> (\<exists>r p. angleStart st = Fin r \<and> Math_PI = Fin p \<and> 0 \<le> r
                  \<and> r \<le> 2 * p * (1 + 2 powi (- 53)) ^ (length (slices (canvas st)) + 3)
                  \<and> real_of_rat r
                      \<le> 2 * pi * (1 + 2 powi (- 53)) ^ (length (slices (canvas st)) + 3)))"
proof -
  let ?T = "totalSize_of statsEntries"
  let ?f = "\<lambda>e. arcLength_of (percentage_of (snd e) ?T)"
  let ?st0 = "\<lparr>extraRows = infoRows_keys, tableBody = tableBody0, canvas = [], angleStart = Fin 0\<rparr>"
  define diffMode where "diffMode = state_has filterParams ''diff_mode''"
  define out where "out = breakdown_loop icon_color diffMode ?T statsEntries ?st0"
  have upd: "updateInfocard icon_color filterParams containerNode tableBody0
      = (case out of
           Inl thrown_at \<Rightarrow> Inl thrown_at
         | Inr s \<Rightarrow> (case hide_unused (extraRows s) (tableBody s) of
                       Inl (e, tb) \<Rightarrow> Inl (e, s\<lparr>tableBody := tb\<rparr>)
                     | Inr tb \<Rightarrow> Inr (s\<lparr>tableBody := tb\<rparr>)))"
    by (simp add: updateInfocard_def Let_def out_def diffMode_def entries)
  have reach: "canvas (state_reached out) = canvas st"
      "angleStart (state_reached out) = angleStart st"
    and completes: "(\<exists>s. updateInfocard icon_color filterParams containerNode tableBody0 = Inr s)
          \<longrightarrow> (\<exists>s. out = Inr s)"
    unfolding st upd by (auto simp: state_reached_def split: sum.splits prod.splits)
  from breakdown_loop_reached [where es = statsEntries and icon_color = icon_color
      and diffMode = diffMode and totalSize = ?T and st = ?st0]
  obtain j where j: "j \<le> length statsEntries"
    and sl: "slices (canvas st) = pie_layout (Fin 0) (map ?f (take j statsEntries))"
    and ang: "angleStart st
        = last (Fin 0 # map snd (pie_layout (Fin 0) (map ?f (take j statsEntries))))"
    and full: "(\<exists>s. out = Inr s) \<longrightarrow> j = length statsEntries"
    unfolding out_def [symmetric] reach by auto
  have tk: "take j arcs = map ?f (take j statsEntries)"
    by (simp add: arcs take_map)
  have "j \<le> length arcs \<and> slices (canvas st) = pie_layout (Fin 0) (take j arcs)
      \<and> ((\<exists>s. updateInfocard icon_color filterParams containerNode tableBody0 = Inr s)
            \<longrightarrow> j = length arcs)"
    using j sl full completes by (simp add: tk) (simp add: arcs)
  then have layout: "\<exists>j \<le> length arcs.
            slices (canvas st) = pie_layout (Fin 0) (take j arcs)
          \<and> ((\<exists>s. updateInfocard icon_color filterParams containerNode tableBody0 = Inr s)
                \<longrightarrow> j = length arcs)"
    by blast
  have reached: "angleStart st = last (Fin 0 # map snd (slices (canvas st)))"
    by (simp only: sl ang)
  have "angle_value (Fin 0)" by (simp add: nearest_zero)
  from pie_layout_angles [OF this, of "map ?f (take j statsEntries)"]
  have first: "slices (canvas st) \<noteq> [] \<longrightarrow> fst (hd (slices (canvas st))) = Fin 0"
    and sorted: "sorted_wrt js_le (map fst (slices (canvas st)) @ [angleStart st])"
    by (simp_all add: sl ang)
  have tolerance: "totalSize_of statsEntries
                = Fin (of_int (\<Sum>e\<leftarrow>childStats containerNode. \<bar>bytes_of (size_s (snd e))\<bar>))
            \<and> (\<exists>r p. angleStart st = Fin r \<and> Math_PI = Fin p \<and> 0 \<le> r
                  \<and> r \<le> 2 * p * (1 + 2 powi (- 53)) ^ (length (slices (canvas st)) + 3)
                  \<and> real_of_rat r
                      \<le> 2 * pi * (1 + 2 powi (- 53)) ^ (length (slices (canvas st)) + 3))"
    if whole: "\<forall>e \<in> set (childStats containerNode). whole_number (size_s (snd e))"
      and bound: "(\<Sum>e\<leftarrow>childStats containerNode. \<bar>bytes_of (size_s (snd e))\<bar>) < 2 ^ 53"
  proof -
    define S where "S = (\<Sum>e\<leftarrow>statsEntries. \<bar>bytes_of (size_s (snd e))\<bar>)"
    define p :: rat where "p = 884279719003555 / 281474976710656"
    define n where "n = length (slices (canvas st))"
    have S: "S = (\<Sum>e\<leftarrow>childStats containerNode. \<bar>bytes_of (size_s (snd e))\<bar>)"
      unfolding S_def entries by (rule sum_list_sort_entries)
    have whole': "\<forall>e \<in> set statsEntries. whole_number (size_s (snd e))"
      using whole by (simp add: entries set_sort_entries)
    have S53: "S < 2 ^ 53" using bound by (simp only: S)
    have T: "?T = Fin (of_int S)"
      unfolding S_def using whole' S53 [unfolded S_def] by (rule totalSize_whole)
    from accumulated_angle_tolerance [OF whole' S53 [unfolded S_def], of j]
    obtain r where r: "angleStart st = Fin r" "0 \<le> r"
        "r \<le> 2 * p * (1 + 2 powi (- 53)) ^ (n + 3)"
      unfolding S_def [symmetric] T [symmetric] sl [symmetric] reached [symmetric]
        p_def [symmetric] n_def [symmetric]
      by blast
    have "real_of_rat r \<le> real_of_rat (2 * p * (1 + 2 powi (- 53)) ^ (n + 3))"
      using r(3) by (simp only: of_rat_less_eq)
    also have "\<dots> = 2 * real_of_rat p * (1 + 2 powi (- 53)) ^ (n + 3)"
      by (simp only: of_rat_mult of_rat_power of_rat_ulp of_rat_numeral_eq)
    also have "\<dots> \<le> 2 * pi * (1 + 2 powi (- 53)) ^ (n + 3)"
    proof -
      have "real_of_rat p < pi"
        using Math_PI_below by (simp add: p_def of_rat_divide)
      then have "2 * real_of_rat p \<le> 2 * pi" by simp
      then show ?thesis
        by (intro mult_right_mono zero_le_power) simp_all
    qed
    finally have "real_of_rat r \<le> 2 * pi * (1 + 2 powi (- 53)) ^ (n + 3)" .
    moreover have "Math_PI = Fin p" by (simp only: Math_PI_def p_def)
    ultimately have "\<exists>r p. angleStart st = Fin r \<and> Math_PI = Fin p \<and> 0 \<le> r
                  \<and> r \<le> 2 * p * (1 + 2 powi (- 53)) ^ (n + 3)
                  \<and> real_of_rat r \<le> 2 * pi * (1 + 2 powi (- 53)) ^ (n + 3)"
      using r by blast
    with T show ?thesis
      unfolding n_def S by (rule conjI)
  qed
  from layout reached first sorted tolerance show ?thesis
    by blast
qed

theorem angles_from_zero_never_decrease_and_end_within_rounding_of_full_circle_witness:
  "whole_number (Fin 9) \<and> whole_number (Fin 2)
   \<and> (\<Sum>e\<leftarrow>childStats example_uneven. \<bar>bytes_of (size_s (snd e))\<bar>) = 11
   \<and> totalSize_of (sort_entries (childStats example_uneven)) = Fin 11
   \<and> slices (canvas (state_reached
        (updateInfocard example_icon_color [] example_uneven infoRows_keys)))
       = [(Fin 0, Fin (180875397068909 / 35184372088832)),
          (Fin (180875397068909 / 35184372088832), Fin (7074237752028441 / 1125899906842624))]
   \<and> angleStart (state_reached
        (updateInfocard example_icon_color [] example_uneven infoRows_keys))
       = Fin (7074237752028441 / 1125899906842624)
   \<and> sorted_wrt js_le [Fin 0, Fin (180875397068909 / 35184372088832),
                        Fin (7074237752028441 / 1125899906842624)]
   \<and> (7074237752028441 / 1125899906842624 :: rat)
       \<le> 2 * (884279719003555 / 281474976710656) * (1 + 2 powi (- 53)) ^ 5
   \<and> real_of_rat (7074237752028441 / 1125899906842624)
       \<le> 2 * pi * (1 + 2 powi (- 53)) ^ 5"
proof -
  define st where "st = state_reached
     (updateInfocard example_icon_color [] example_uneven infoRows_keys)"
  have sl: "slices (canvas st)
      = [(Fin 0, Fin (180875397068909 / 35184372088832)),
         (Fin (180875397068909 / 35184372088832), Fin (7074237752028441 / 1125899906842624))]"
    and ang: "angleStart st = Fin (7074237752028441 / 1125899906842624)"
    by (simp_all add: st_def update_example_uneven state_reached_def)
  have sizes: "whole_number (Fin 9)" "whole_number (Fin 2)"
    by (simp_all add: whole_number_def bytes_of_def)
  then have whole: "\<forall>e \<in> set (childStats example_uneven). whole_number (size_s (snd e))"
    by (simp add: example_uneven_def)
  have total: "(\<Sum>e\<leftarrow>childStats example_uneven. \<bar>bytes_of (size_s (snd e))\<bar>) = 11"
    by (simp add: example_uneven_def bytes_of_def)
  then have below: "(\<Sum>e\<leftarrow>childStats example_uneven. \<bar>bytes_of (size_s (snd e))\<bar>) < 2 ^ 53"
    by simp
  note update = angles_from_zero_never_decrease_and_end_within_rounding_of_full_circle
    [OF st_def refl refl]
  from update have "sorted_wrt js_le (map fst (slices (canvas st)) @ [angleStart st])"
    by (rule conjunct1 [OF conjunct2 [OF conjunct2 [OF conjunct2]]])
  then have sorted: "sorted_wrt js_le [Fin 0, Fin (180875397068909 / 35184372088832),
                        Fin (7074237752028441 / 1125899906842624)]"
    by (simp only: sl ang list.map fst_conv append.simps)
  from update whole below
  have "totalSize_of (sort_entries (childStats example_uneven))
          = Fin (of_int (\<Sum>e\<leftarrow>childStats example_uneven. \<bar>bytes_of (size_s (snd e))\<bar>))
      \<and> (\<exists>r p. angleStart st = Fin r \<and> Math_PI = Fin p \<and> 0 \<le> r
            \<and> r \<le> 2 * p * (1 + 2 powi (- 53)) ^ (length (slices (canvas st)) + 3)
            \<and> real_of_rat r
                \<le> 2 * pi * (1 + 2 powi (- 53)) ^ (length (slices (canvas st)) + 3))"
    by blast
  then have T: "totalSize_of (sort_entries (childStats example_uneven)) = Fin 11"
    and "\<exists>r p. Fin (7074237752028441 / 1125899906842624) = Fin r
            \<and> Fin (884279719003555 / 281474976710656) = Fin p
            \<and> r \<le> 2 * p * (1 + 2 powi (- 53)) ^ 5
            \<and> real_of_rat r \<le> 2 * pi * (1 + 2 powi (- 53)) ^ 5"
    unfolding total ang sl Math_PI_def by auto
  then have "(7074237752028441 / 1125899906842624 :: rat)
       \<le> 2 * (884279719003555 / 281474976710656) * (1 + 2 powi (- 53)) ^ 5"
    and "real_of_rat (7074237752028441 / 1125899906842624)
       \<le> 2 * pi * (1 + 2 powi (- 53)) ^ 5"
    unfolding number.inject by blast+
  with sizes total T sl ang sorted show ?thesis
    unfolding st_def by blast
qed

subsection \<open>The rows of the table\<close>

lemma updateBreakdownRow_known:
  assumes "ty \<in> set infoRows_keys"
  shows "updateBreakdownRow tb (infoRows ty) (Some stats) percentage
           = Inr (if js_strict_eq (size_s stats) (Fin 0) then removeAll ty tb
                  else removeAll ty tb @ [ty])"
  using assms by (simp add: updateBreakdownRow_def infoRows_def)

lemma hide_unused_removes: "hide_unused rows tb = Inr (filter (\<lambda>r. r \<notin> set rows) tb)"
proof (induction rows arbitrary: tb)
  case Nil
  show ?case by simp
next
  case (Cons row rows)
  have "updateBreakdownRow tb (Some row) None (Fin 0) = Inr (removeAll row tb)"
    by (simp add: updateBreakdownRow_def)
  moreover have "filter (\<lambda>r. r \<notin> set rows) (removeAll row tb)
                   = filter (\<lambda>r. r \<notin> set (row # rows)) tb"
    by (induction tb) auto
  ultimately show ?case
    by (simp add: Cons.IH)
qed

lemma breakdown_loop_rows:
  assumes "\<forall>e \<in> set es. fst e \<in> set infoRows_keys" and "distinct (map fst es)"
  shows "\<exists>st'. breakdown_loop icon_color diffMode totalSize es st = Inr st'
           \<and> (\<forall>e \<in> set es. js_strict_eq (size_s (snd e)) (Fin 0) \<longrightarrow> fst e \<notin> set (tableBody st'))
           \<and> (\<forall>row. row \<notin> fst ` set es \<longrightarrow>
                 (row \<in> set (tableBody st') \<longleftrightarrow> row \<in> set (tableBody st)))"
  using assms
proof (induction es arbitrary: st)
  case Nil
  show ?case by simp
next
  case (Cons e es)
  obtain ty stats where e: "e = (ty, stats)" by (cases e)
  from Cons.prems have known: "ty \<in> set infoRows_keys" and rest_known: "\<forall>e \<in> set es. fst e \<in> set infoRows_keys"
    and fresh: "ty \<notin> fst ` set es" and rest_distinct: "distinct (map fst es)"
    by (simp_all add: e)
  define tb where "tb = (if js_strict_eq (size_s stats) (Fin 0) then removeAll ty (tableBody st)
                         else removeAll ty (tableBody st) @ [ty])"
  define arc where "arc = arcLength_of (percentage_of stats totalSize)"
  define st1 where "st1 =
     (if js_lt (Fin 0) arc
      then \<lparr>extraRows = removeAll ty (extraRows st), tableBody = tb,
            canvas = canvas st @ DrawSlice (angleStart st) (js_add (angleStart st) arc) (icon_color ty)
                       # (if diffMode
                          then [DrawBorder (angleStart st) (js_add (angleStart st) arc)
                                  (if js_lt (Fin 0) (size_s stats) then ''#ea4335'' else ''#34a853'')
                                  (Fin 16)]
                          else []),
            angleStart = js_add (angleStart st) arc\<rparr>
      else \<lparr>extraRows = removeAll ty (extraRows st), tableBody = tb, canvas = canvas st,
            angleStart = angleStart st\<rparr>)"
  have tb1: "tableBody st1 = tb" by (simp add: st1_def)
  have step: "breakdown_loop icon_color diffMode totalSize (e # es) st
                = breakdown_loop icon_color diffMode totalSize es st1"
    unfolding e st1_def arc_def tb_def
    by (cases "js_lt (Fin 0) (arcLength_of (percentage_of stats totalSize))")
       (simp_all add: Let_def updateBreakdownRow_known [OF known] split del: if_split)
  from Cons.IH [OF rest_known rest_distinct, of st1] obtain st' where
    run: "breakdown_loop icon_color diffMode totalSize es st1 = Inr st'"
    and zero: "\<forall>e \<in> set es. js_strict_eq (size_s (snd e)) (Fin 0) \<longrightarrow> fst e \<notin> set (tableBody st')"
    and other: "\<forall>row. row \<notin> fst ` set es \<longrightarrow> (row \<in> set (tableBody st') \<longleftrightarrow> row \<in> set tb)"
    unfolding tb1 by blast
  have "ty \<notin> set (tableBody st')" if "js_strict_eq (size_s stats) (Fin 0)"
  proof -
    from that have "ty \<notin> set tb" by (simp add: tb_def)
    with other fresh show ?thesis by blast
  qed
  moreover have "row \<in> set (tableBody st') \<longleftrightarrow> row \<in> set (tableBody st)"
    if "row \<notin> fst ` set (e # es)" for row
  proof -
    from that have "row \<noteq> ty" and "row \<notin> fst ` set es" by (simp_all add: e)
    then have "row \<in> set (tableBody st') \<longleftrightarrow> row \<in> set tb" using other by blast
    also have "\<dots> \<longleftrightarrow> row \<in> set (tableBody st)"
      using \<open>row \<noteq> ty\<close> by (simp add: tb_def)
    finally show ?thesis .
  qed
  ultimately show ?case
    unfolding step using run zero by (auto simp: e)
qed

subsection \<open>Slices lie side by side\<close>

lemma pie_layout_hd:
  "pie_layout a arcs \<noteq> [] \<Longrightarrow> fst (hd (pie_layout a arcs)) = a"
  by (induction arcs) (simp_all split: if_splits)

lemma pie_layout_contiguous:
  "Suc i < length (pie_layout a arcs)
     \<Longrightarrow> fst (pie_layout a arcs ! Suc i) = snd (pie_layout a arcs ! i)"
proof (induction arcs arbitrary: a i)
  case Nil
  then show ?case by simp
next
  case (Cons arc arcs)
  show ?case
  proof (cases "js_lt (Fin 0) arc")
    case False
    with Cons show ?thesis by simp
  next
    case True
    let ?rest = "pie_layout (js_add a arc) arcs"
    from True Cons.prems have len: "i < length ?rest" by simp
    show ?thesis
    proof (cases i)
      case 0
      from len have "?rest \<noteq> []" by auto
      then have "fst (?rest ! 0) = js_add a arc"
        using pie_layout_hd [of "js_add a arc" arcs] by (simp add: hd_conv_nth)
      with True 0 show ?thesis by simp
    next
      case (Suc j)
      with len have "Suc j < length ?rest" by simp
      from Cons.IH [OF this] True Suc show ?thesis by simp
    qed
  qed
qed

text \<open>
  Claim C5 does not hold as stated: the comparison function of the sort is
  \<^verbatim>\<open>b[1].size - a[1].size\<close>, on the signed sizes. In a differential report, where type
  \<open>t\<close> shrank by 300 bytes and type \<open>r\<close> grew by 100, the entries are processed in the
  order \<open>r\<close>, \<open>o\<close>, \<open>t\<close>: the slice of \<open>r\<close> is drawn first, from angle 0, and the slice
  of \<open>t\<close> after it, although the absolute size of \<open>r\<close> is the smaller one.
\<close>

theorem slices_not_in_order_of_absolute_size_counterexample:
  "sort_entries (childStats example_diff_container)
     = [(''r'', \<lparr>size_s = Fin 100, count_s = Fin 1\<rparr>),
        (''o'', \<lparr>size_s = Fin 0, count_s = Fin 0\<rparr>),
        (''t'', \<lparr>size_s = Fin (- 300), count_s = Fin 1\<rparr>)]
   \<and> updateInfocard example_icon_color [(''diff_mode'', ''on'')] example_diff_container infoRows_keys
     = Inr \<lparr>extraRows = [''b'', ''d'', ''R'', ''x'', ''m'', ''p'', ''P''],
            tableBody = [''r'', ''t''],
            canvas = [DrawSlice (Fin 0) (Fin (884279719003555 / 562949953421312)) ''fill-r'',
                      DrawBorder (Fin 0) (Fin (884279719003555 / 562949953421312)) ''#ea4335''
                        (Fin 16),
                      DrawSlice (Fin (884279719003555 / 562949953421312))
                        (Fin (884279719003555 / 140737488355328)) ''fill-t'',
                      DrawBorder (Fin (884279719003555 / 562949953421312))
                        (Fin (884279719003555 / 140737488355328)) ''#34a853'' (Fin 16)],
            angleStart = Fin (884279719003555 / 140737488355328)\<rparr>
   \<and> js_lt (js_abs (Fin 100)) (js_abs (Fin (- 300)))"
proof -
  have "sort_entries (childStats example_diff_container)
     = [(''r'', \<lparr>size_s = Fin 100, count_s = Fin 1\<rparr>),
        (''o'', \<lparr>size_s = Fin 0, count_s = Fin 0\<rparr>),
        (''t'', \<lparr>size_s = Fin (- 300), count_s = Fin 1\<rparr>)]"
    by (simp add: sort_entries_def comparefn_def js_sub_def example_diff_container_def double_evals)
  moreover have "js_lt (js_abs (Fin 100)) (js_abs (Fin (- 300)))"
    by simp
  ultimately show ?thesis
    using update_example_diff_container by blast
qed

text \<open>
  Claim C5 as amended. Let every type of the container have a row in the table, let the
  keys of \<^verbatim>\<open>childStats\<close> be distinct, as the keys of an object are, and let the sizes be
  finite numbers. Then the update completes, and
  \<^item> the entries are processed in descending order of their signed sizes (the sorted
    list is a rearrangement of the entries, and no entry is smaller than a later one);
    when no size is negative, this is the descending order of the absolute sizes;
  \<^item> the slices are laid out from angle 0 in that order, an entry with a positive arc
    taking \<open>|percentage| * 2 * Math.PI\<close> from the angle reached so far and any other
    entry taking no slice, so that each slice begins where the slice before it ended;
  \<^item> the row of every type whose size is zero is not in the table afterwards.
\<close>

theorem slices_by_signed_size_contiguous_and_zero_rows_hidden:
  assumes known: "\<forall>e \<in> set (childStats containerNode). fst e \<in> set infoRows_keys"
    and keys: "distinct (map fst (childStats containerNode))"
    and sizes: "\<forall>e \<in> set (childStats containerNode). finite_double (size_s (snd e))"
  shows "\<exists>st. updateInfocard icon_color filterParams containerNode tableBody0 = Inr st
     \<and> mset (sort_entries (childStats containerNode)) = mset (childStats containerNode)
     \<and> sorted_wrt (\<lambda>a b. js_le (size_s (snd b)) (size_s (snd a)))
          (sort_entries (childStats containerNode))
     \<and> ((\<forall>e \<in> set (childStats containerNode). js_le (Fin 0) (size_s (snd e)))
          \<longrightarrow> sorted_wrt (\<lambda>a b. js_le (js_abs (size_s (snd b))) (js_abs (size_s (snd a))))
                (sort_entries (childStats containerNode)))
     \<and> slices (canvas st)
         = pie_layout (Fin 0)
             (map (\<lambda>e. js_mul (js_mul (js_abs (js_div (size_s (snd e))
                                   (totalSize_of (sort_entries (childStats containerNode)))))
                           (Fin 2)) Math_PI)
                (sort_entries (childStats containerNode)))
     \<and> (slices (canvas st) \<noteq> [] \<longrightarrow> fst (hd (slices (canvas st))) = Fin 0)
     \<and> (\<forall>i. Suc i < length (slices (canvas st))
            \<longrightarrow> fst (slices (canvas st) ! Suc i) = snd (slices (canvas st) ! i))
     \<and> (\<forall>e \<in> set (childStats containerNode).
            js_strict_eq (size_s (snd e)) (Fin 0) \<longrightarrow> fst e \<notin> set (tableBody st))"
proof -
  let ?es = "sort_entries (childStats containerNode)"
  let ?arcs = "map (\<lambda>e. js_mul (js_mul (js_abs (js_div (size_s (snd e)) (totalSize_of ?es)))
                           (Fin 2)) Math_PI) ?es"
  let ?st0 = "\<lparr>extraRows = infoRows_keys, tableBody = tableBody0, canvas = [],
               angleStart = Fin 0\<rparr>"
  have perm: "mset ?es = mset (childStats containerNode)"
    by (rule mset_sort_entries)
  have order: "sorted_wrt (\<lambda>a b. js_le (size_s (snd b)) (size_s (snd a))) ?es"
    using sizes by (rule sorted_sort_entries)
  have absolute: "sorted_wrt (\<lambda>a b. js_le (js_abs (size_s (snd b))) (js_abs (size_s (snd a)))) ?es"
    if nonneg: "\<forall>e \<in> set (childStats containerNode). js_le (Fin 0) (size_s (snd e))"
  proof -
    have same: "js_abs (size_s (snd e)) = size_s (snd e)" if "e \<in> set ?es" for e
    proof -
      from that nonneg have "js_le (Fin 0) (size_s (snd e))"
        by (simp add: set_sort_entries)
      then show ?thesis
        by (cases "size_s (snd e)") auto
    qed
    from order show ?thesis
      by (rule sorted_wrt_mono_rel [rotated]) (simp add: same)
  qed
  have known': "\<forall>e \<in> set ?es. fst e \<in> set infoRows_keys"
    using known by (simp add: set_sort_entries)
  have "mset (map fst ?es) = mset (map fst (childStats containerNode))"
    using perm by (metis mset_map)
  then have keys': "distinct (map fst ?es)"
    using keys by (metis mset_eq_imp_distinct_iff)
  from breakdown_loop_rows [OF known' keys', of icon_color "state_has filterParams ''diff_mode''"
         "totalSize_of ?es" ?st0]
  obtain st1 where
    loop: "breakdown_loop icon_color (state_has filterParams ''diff_mode'') (totalSize_of ?es) ?es ?st0
             = Inr st1"
    and zero: "\<forall>e \<in> set ?es. js_strict_eq (size_s (snd e)) (Fin 0) \<longrightarrow> fst e \<notin> set (tableBody st1)"
    by blast
  define st where "st = st1\<lparr>tableBody := filter (\<lambda>r. r \<notin> set (extraRows st1)) (tableBody st1)\<rparr>"
  have run: "updateInfocard icon_color filterParams containerNode tableBody0 = Inr st"
    by (simp add: updateInfocard_def Let_def loop hide_unused_removes st_def)
  have "slices (canvas st1) = pie_layout (Fin 0) ?arcs"
    using breakdown_loop_slices [OF loop]
    by (simp add: percentage_of_def arcLength_of_def)
  then have layout: "slices (canvas st) = pie_layout (Fin 0) ?arcs"
    by (simp add: st_def)
  have first: "slices (canvas st) \<noteq> [] \<longrightarrow> fst (hd (slices (canvas st))) = Fin 0"
    unfolding layout by (simp add: pie_layout_hd)
  have next_to: "\<forall>i. Suc i < length (slices (canvas st))
            \<longrightarrow> fst (slices (canvas st) ! Suc i) = snd (slices (canvas st) ! i)"
    unfolding layout by (simp add: pie_layout_contiguous)
  have hidden: "\<forall>e \<in> set (childStats containerNode).
            js_strict_eq (size_s (snd e)) (Fin 0) \<longrightarrow> fst e \<notin> set (tableBody st)"
    using zero by (simp add: st_def set_sort_entries)
  from run perm order absolute layout first next_to hidden show ?thesis
    by blast
qed

theorem slices_by_signed_size_contiguous_and_zero_rows_hidden_witness:
  "(\<exists>st. updateInfocard example_icon_color [(''diff_mode'', ''on'')] example_diff_container
            infoRows_keys = Inr st
      \<and> slices (canvas st) = [(Fin 0, Fin (884279719003555 / 562949953421312)),
                               (Fin (884279719003555 / 562949953421312),
                                Fin (884279719003555 / 140737488355328))]
      \<and> tableBody st = [''r'', ''t'']
      \<and> ''o'' \<notin> set (tableBody st))
   \<and> sorted_wrt (\<lambda>a b. js_le (js_abs (size_s (snd b))) (js_abs (size_s (snd a))))
         (sort_entries (childStats example_container))"
proof -
  have known: "\<forall>e \<in> set (childStats example_diff_container). fst e \<in> set infoRows_keys"
    by (simp add: example_diff_container_def infoRows_keys_def)
  have keys: "distinct (map fst (childStats example_diff_container))"
    by (simp add: example_diff_container_def)
  have sizes: "\<forall>e \<in> set (childStats example_diff_container). finite_double (size_s (snd e))"
    by (simp add: example_diff_container_def finite_double_iff double_evals
          del: finite_double.simps)
  from slices_by_signed_size_contiguous_and_zero_rows_hidden [OF known keys sizes,
         of example_icon_color "[(''diff_mode'', ''on'')]" infoRows_keys]
  obtain st where
    run: "updateInfocard example_icon_color [(''diff_mode'', ''on'')] example_diff_container
            infoRows_keys = Inr st"
    and hidden: "\<forall>e \<in> set (childStats example_diff_container).
            js_strict_eq (size_s (snd e)) (Fin 0) \<longrightarrow> fst e \<notin> set (tableBody st)"
    by blast
  from hidden have "''o'' \<notin> set (tableBody st)"
    by (simp add: example_diff_container_def js_strict_eq_def)
  moreover from run have "slices (canvas st) = [(Fin 0, Fin (884279719003555 / 562949953421312)),
                              (Fin (884279719003555 / 562949953421312),
                               Fin (884279719003555 / 140737488355328))]"
    and "tableBody st = [''r'', ''t'']"
    by (auto simp: update_example_diff_container)
  ultimately have first: "\<exists>st. updateInfocard example_icon_color [(''diff_mode'', ''on'')]
            example_diff_container infoRows_keys = Inr st
      \<and> slices (canvas st) = [(Fin 0, Fin (884279719003555 / 562949953421312)),
                               (Fin (884279719003555 / 562949953421312),
                                Fin (884279719003555 / 140737488355328))]
      \<and> tableBody st = [''r'', ''t'']
      \<and> ''o'' \<notin> set (tableBody st)"
    using run by blast
  have known': "\<forall>e \<in> set (childStats example_container). fst e \<in> set infoRows_keys"
    by (simp add: example_container_def infoRows_keys_def)
  have keys': "distinct (map fst (childStats example_container))"
    by (simp add: example_container_def)
  have sizes': "\<forall>e \<in> set (childStats example_container). finite_double (size_s (snd e))"
    by (simp add: example_container_def finite_double_iff double_evals
          del: finite_double.simps)
  have nonneg: "\<forall>e \<in> set (childStats example_container). js_le (Fin 0) (size_s (snd e))"
    by (simp add: example_container_def)
  from slices_by_signed_size_contiguous_and_zero_rows_hidden [OF known' keys' sizes',
         of example_icon_color "[]" infoRows_keys] nonneg
  have "sorted_wrt (\<lambda>a b. js_le (js_abs (size_s (snd b))) (js_abs (size_s (snd a))))
         (sort_entries (childStats example_container))"
    by blast
  with first show ?thesis
    by (rule conjI)
qed

end
